theory Spec2Isabelle
  imports Main
begin

section \<open>Objects of keyboard.js\<close>

text \<open>
  Objects live in a store and are named by references. A method takes the reference
  \<open>this\<close> and the store, and returns the store it leaves.
\<close>

type_synonym ref = nat

text \<open>
  Class \<open>Key\<close>: \<open>this.value\<close> (a \<open>KeyboardEvent.code\<close> string, or \<open>null\<close>, which is
  \<open>None\<close>; the field is \<open>key_value\<close> here, \<open>value\<close> being a command of Isabelle),
  \<open>this.isDown\<close> and \<open>this.isUp\<close>. The two bound functions
  \<open>this.downListener\<close> and \<open>this.upListener\<close> are determined by the key they are bound
  to; they are the values \<open>downListener this\<close> and \<open>upListener this\<close> below.
\<close>

record Key =
  key_value :: "string option"
  isDown :: bool
  isUp :: bool

datatype listener = upListener ref | downListener ref

text \<open>The part of a \<open>KeyboardEvent\<close> the handlers use: \<open>event.code\<close>, and the flag
  that \<open>event.preventDefault()\<close> sets.\<close>

record KeyboardEvent =
  code :: string
  defaultPrevented :: bool

datatype evtype = keyup | keydown

text \<open>
  Class \<open>PikaUserInput\<close> (physics.js) declares the three output fields; \<open>PikaKeyboard\<close>
  extends it. The fields \<open>leftKey\<close> ... \<open>powerHitKey\<close> hold a \<open>Key\<close>; \<open>getInput\<close>
  tests \<open>this.downRightKey\<close> for truthiness before reading it, so that field is modelled
  as nullable.
\<close>

record PikaUserInput =
  xDirection :: int
  yDirection :: int
  powerHit :: int

record PikaKeyboard = PikaUserInput +
  powerHitKeyIsDownPrevious :: bool
  leftKey :: ref
  rightKey :: ref
  upKey :: ref
  downKey :: ref
  powerHitKey :: ref
  downRightKey :: "ref option"

text \<open>
  The store: the \<open>Key\<close> objects, the \<open>PikaKeyboard\<close> objects, the next free reference,
  and the event listener list of \<open>window\<close> (entries in registration order, each an event
  type and a callback).
\<close>

record world =
  keys :: "ref \<Rightarrow> Key"
  keyboards :: "ref \<Rightarrow> PikaKeyboard"
  nextRef :: ref
  window :: "(evtype \<times> listener) list"

datatype error = TypeError

section \<open>The event target\<close>

text \<open>
  \<open>window.addEventListener(type, callback)\<close> appends the entry unless the list already
  holds one with the same type and callback; \<open>window.removeEventListener(type, callback)\<close>
  removes that entry when it is there.
\<close>

definition appendNew :: "'a \<Rightarrow> 'a list \<Rightarrow> 'a list" where
  "appendNew e ls = (if e \<in> set ls then ls else ls @ [e])"

definition addEventListener :: "evtype \<Rightarrow> listener \<Rightarrow> world \<Rightarrow> world" where
  "addEventListener ty cb w = w\<lparr>window := appendNew (ty, cb) (window w)\<rparr>"

definition removeEventListener :: "evtype \<Rightarrow> listener \<Rightarrow> world \<Rightarrow> world" where
  "removeEventListener ty cb w = w\<lparr>window := remove1 (ty, cb) (window w)\<rparr>"

section \<open>Class Key\<close>

definition downHandler :: "ref \<Rightarrow> KeyboardEvent \<Rightarrow> world \<Rightarrow> KeyboardEvent \<times> world" where
  "downHandler this event w =
     (if Some (code event) = key_value (keys w this)
      then (event\<lparr>defaultPrevented := True\<rparr>,
            w\<lparr>keys := (keys w)(this := (keys w this)\<lparr>isDown := True, isUp := False\<rparr>)\<rparr>)
      else (event, w))"

definition upHandler :: "ref \<Rightarrow> KeyboardEvent \<Rightarrow> world \<Rightarrow> KeyboardEvent \<times> world" where
  "upHandler this event w =
     (if Some (code event) = key_value (keys w this)
      then (event\<lparr>defaultPrevented := True\<rparr>,
            w\<lparr>keys := (keys w)(this := (keys w this)\<lparr>isDown := False, isUp := True\<rparr>)\<rparr>)
      else (event, w))"

definition Key_subscribe :: "ref \<Rightarrow> world \<Rightarrow> world" where
  "Key_subscribe this w =
     addEventListener keydown (downListener this)
       (addEventListener keyup (upListener this) w)"

definition Key_unsubscribe :: "ref \<Rightarrow> world \<Rightarrow> world" where
  "Key_unsubscribe this w =
     (let w1 = removeEventListener keydown (downListener this) w;
          w2 = removeEventListener keyup (upListener this) w1
      in w2\<lparr>keys := (keys w2)(this := (keys w2 this)\<lparr>isDown := False, isUp := True\<rparr>)\<rparr>)"

text \<open>\<open>new Key(value)\<close>: a fresh object, its three fields, then \<open>this.subscribe()\<close>.\<close>

definition new_Key :: "string option \<Rightarrow> world \<Rightarrow> ref \<times> world" where
  "new_Key v w =
     (let this = nextRef w;
          w1 = w\<lparr>nextRef := Suc this,
                 keys := (keys w)(this := \<lparr>key_value = v, isDown = False, isUp = True\<rparr>)\<rparr>
      in (this, Key_subscribe this w1))"

section \<open>Delivery of an event\<close>

text \<open>
  The window calls, in registration order, every callback registered for the type of
  the event; the callbacks share the event object.
\<close>

fun invoke :: "listener \<Rightarrow> KeyboardEvent \<times> world \<Rightarrow> KeyboardEvent \<times> world" where
  "invoke (downListener k) (event, w) = downHandler k event w"
| "invoke (upListener k) (event, w) = upHandler k event w"

definition dispatchEvent :: "evtype \<Rightarrow> KeyboardEvent \<Rightarrow> world \<Rightarrow> KeyboardEvent \<times> world" where
  "dispatchEvent ty event w =
     fold invoke (map snd (filter (\<lambda>e. fst e = ty) (window w))) (event, w)"

section \<open>Class PikaKeyboard\<close>

text \<open>
  \<open>new PikaKeyboard(left, right, up, down, powerHit, downRight = null)\<close>. The fields that
  \<open>super()\<close> leaves (physics.js) are the parameter \<open>base\<close>.
\<close>

definition new_PikaKeyboard ::
  "PikaUserInput \<Rightarrow> string option \<Rightarrow> string option \<Rightarrow> string option \<Rightarrow> string option \<Rightarrow>
   string option \<Rightarrow> string option \<Rightarrow> world \<Rightarrow> ref \<times> world" where
  "new_PikaKeyboard base left right up down powerHit' downRight w =
     (let this = nextRef w;
          w0 = w\<lparr>nextRef := Suc this\<rparr>;
          (l, w1) = new_Key left w0;
          (r, w2) = new_Key right w1;
          (u, w3) = new_Key up w2;
          (d, w4) = new_Key down w3;
          (p, w5) = new_Key powerHit' w4;
          (dr, w6) = new_Key downRight w5
      in (this,
          w6\<lparr>keyboards := (keyboards w6)(this :=
               \<lparr>xDirection = xDirection base, yDirection = yDirection base,
                powerHit = powerHit base,
                powerHitKeyIsDownPrevious = False,
                leftKey = l, rightKey = r, upKey = u, downKey = d, powerHitKey = p,
                downRightKey = Some dr\<rparr>)\<rparr>))"

definition getInput :: "ref \<Rightarrow> world \<Rightarrow> world" where
  "getInput this w =
     (let kb = keyboards w this;
          downRightIsDown =
            (case downRightKey kb of None \<Rightarrow> False | Some k \<Rightarrow> isDown (keys w k));
          x = (if isDown (keys w (leftKey kb)) then - 1
               else if isDown (keys w (rightKey kb)) \<or> downRightIsDown then 1
               else 0);
          y = (if isDown (keys w (upKey kb)) then - 1
               else if isDown (keys w (downKey kb)) \<or> downRightIsDown then 1
               else 0);
          isDownNow = isDown (keys w (powerHitKey kb));
          p = (if \<not> powerHitKeyIsDownPrevious kb \<and> isDownNow then 1 else 0)
      in w\<lparr>keyboards := (keyboards w)(this :=
            kb\<lparr>xDirection := x, yDirection := y, powerHit := p,
               powerHitKeyIsDownPrevious := isDownNow\<rparr>)\<rparr>)"

text \<open>
  \<open>subscribe()\<close> and \<open>unsubscribe()\<close> call the method on the six fields in turn, with no
  test of \<open>this.downRightKey\<close>: on \<open>null\<close> the call throws a \<open>TypeError\<close>.
\<close>

definition PikaKeyboard_subscribe :: "ref \<Rightarrow> world \<Rightarrow> error + world" where
  "PikaKeyboard_subscribe this w =
     (let kb = keyboards w this;
          w1 = Key_subscribe (leftKey kb) w;
          w2 = Key_subscribe (rightKey kb) w1;
          w3 = Key_subscribe (upKey kb) w2;
          w4 = Key_subscribe (downKey kb) w3;
          w5 = Key_subscribe (powerHitKey kb) w4
      in case downRightKey kb of
           None \<Rightarrow> Inl TypeError
         | Some k \<Rightarrow> Inr (Key_subscribe k w5))"

definition PikaKeyboard_unsubscribe :: "ref \<Rightarrow> world \<Rightarrow> error + world" where
  "PikaKeyboard_unsubscribe this w =
     (let kb = keyboards w this;
          w1 = Key_unsubscribe (leftKey kb) w;
          w2 = Key_unsubscribe (rightKey kb) w1;
          w3 = Key_unsubscribe (upKey kb) w2;
          w4 = Key_unsubscribe (downKey kb) w3;
          w5 = Key_unsubscribe (powerHitKey kb) w4
      in case downRightKey kb of
           None \<Rightarrow> Inl TypeError
         | Some k \<Rightarrow> Inr (Key_unsubscribe k w5))"

section \<open>Runs of the program\<close>

text \<open>A raw device event, as the browser delivers it: not yet default-prevented.\<close>

definition press :: "string \<Rightarrow> world \<Rightarrow> world" where
  "press c w = snd (dispatchEvent keydown \<lparr>code = c, defaultPrevented = False\<rparr> w)"

definition release :: "string \<Rightarrow> world \<Rightarrow> world" where
  "release c w = snd (dispatchEvent keyup \<lparr>code = c, defaultPrevented = False\<rparr> w)"

fun dispatchAll :: "(evtype \<times> KeyboardEvent) list \<Rightarrow> world \<Rightarrow> world" where
  "dispatchAll [] w = w"
| "dispatchAll ((ty, event) # evs) w = dispatchAll evs (snd (dispatchEvent ty event w))"

text \<open>
  A run of frames: before each call of \<open>getInput\<close> the events of one batch are
  delivered. \<open>pulses\<close> lists the value of \<open>powerHit\<close> that each call leaves;
  \<open>heldAtEachFrame\<close> says that the power hit key is down at every one of the calls.
\<close>

fun pulses :: "ref \<Rightarrow> (evtype \<times> KeyboardEvent) list list \<Rightarrow> world \<Rightarrow> int list" where
  "pulses d [] w = []"
| "pulses d (evs # rest) w =
     (let w' = getInput d (dispatchAll evs w)
      in powerHit (keyboards w' d) # pulses d rest w')"

fun heldAtEachFrame :: "ref \<Rightarrow> (evtype \<times> KeyboardEvent) list list \<Rightarrow> world \<Rightarrow> bool" where
  "heldAtEachFrame d [] w = True"
| "heldAtEachFrame d (evs # rest) w =
     (let w1 = dispatchAll evs w
      in isDown (keys w1 (powerHitKey (keyboards w1 d))) \<and>
         heldAtEachFrame d rest (getInput d w1))"

text \<open>\<open>samples\<close> lists what each call of a run of frames reads in \<open>isDown\<close> of the power
  hit key.\<close>

fun samples :: "ref \<Rightarrow> (evtype \<times> KeyboardEvent) list list \<Rightarrow> world \<Rightarrow> bool list" where
  "samples d [] w = []"
| "samples d (evs # rest) w =
     (let w1 = dispatchAll evs w
      in isDown (keys w1 (powerHitKey (keyboards w1 d))) # samples d rest (getInput d w1))"

text \<open>The operations on one \<open>Key\<close>: its handlers called directly, its two methods, and
  an event delivered through the window.\<close>

datatype key_op =
    OnPressEvent KeyboardEvent
  | OnReleaseEvent KeyboardEvent
  | Subscribe
  | Unsubscribe
  | Deliver evtype KeyboardEvent

fun key_step :: "ref \<Rightarrow> key_op \<Rightarrow> world \<Rightarrow> world" where
  "key_step k (OnPressEvent event) w = snd (downHandler k event w)"
| "key_step k (OnReleaseEvent event) w = snd (upHandler k event w)"
| "key_step k Subscribe w = Key_subscribe k w"
| "key_step k Unsubscribe w = Key_unsubscribe k w"
| "key_step k (Deliver ty event) w = snd (dispatchEvent ty event w)"

definition key_run :: "ref \<Rightarrow> key_op list \<Rightarrow> world \<Rightarrow> world" where
  "key_run k ops w = fold (key_step k) ops w"

section \<open>The listener list of the window\<close>

text \<open>
  Three facts hold of the listener list in every world the program reaches: no entry
  occurs twice, a \<open>keyup\<close> entry is an \<open>upListener\<close> and a \<open>keydown\<close> entry a
  \<open>downListener\<close>, and the \<open>keydown\<close> entry of a key has the \<open>keyup\<close> entry of that key
  somewhere before it.
\<close>

fun well_typed :: "evtype \<times> listener \<Rightarrow> bool" where
  "well_typed (keyup, upListener k) = True"
| "well_typed (keydown, downListener k) = True"
| "well_typed (keyup, downListener k) = False"
| "well_typed (keydown, upListener k) = False"

definition registered_before ::
  "evtype \<times> listener \<Rightarrow> evtype \<times> listener \<Rightarrow> (evtype \<times> listener) list \<Rightarrow> bool" where
  "registered_before a b ls = (a \<in> set (takeWhile (\<lambda>e. e \<noteq> b) ls) \<and> b \<in> set ls)"

fun release_before :: "(evtype \<times> listener) list \<Rightarrow> evtype \<times> listener \<Rightarrow> bool" where
  "release_before ls (keydown, downListener k) =
     registered_before (keyup, upListener k) (keydown, downListener k) ls"
| "release_before ls (keydown, upListener k) = True"
| "release_before ls (keyup, cb) = True"

definition listeners_ok :: "(evtype \<times> listener) list \<Rightarrow> bool" where
  "listeners_ok ls =
     (distinct ls \<and> list_all well_typed ls \<and> list_all (release_before ls) ls)"

definition window_ok :: "world \<Rightarrow> bool" where
  "window_ok w = listeners_ok (window w)"

definition unregistered :: "ref \<Rightarrow> world \<Rightarrow> bool" where
  "unregistered k w =
     ((keydown, downListener k) \<notin> set (window w) \<and> (keyup, upListener k) \<notin> set (window w))"

text \<open>The keys a keyboard holds, and the two states of a key.\<close>

definition keysOf :: "PikaKeyboard \<Rightarrow> ref list" where
  "keysOf kb =
     [leftKey kb, rightKey kb, upKey kb, downKey kb, powerHitKey kb] @
     (case downRightKey kb of None \<Rightarrow> [] | Some k \<Rightarrow> [k])"

definition keyIsUp :: "Key \<Rightarrow> bool" where
  "keyIsUp key = (isDown key = False \<and> isUp key = True)"

definition consistent :: "Key \<Rightarrow> bool" where
  "consistent key = (isDown key = (\<not> isUp key))"

text \<open>A keyboard whose sixth key is an allocated \<open>Key\<close> with no code, up.\<close>

definition comboDisabled :: "ref \<Rightarrow> world \<Rightarrow> bool" where
  "comboDisabled d w =
     (d < nextRef w \<and>
      (case downRightKey (keyboards w d) of
         None \<Rightarrow> False
       | Some c \<Rightarrow>
           c < nextRef w \<and> keys w c = \<lparr>key_value = None, isDown = False, isUp = True\<rparr>))"

text \<open>A world with no object and no listener; the cells of the store that no \<open>new\<close> has
  filled are never read.\<close>

definition emptyWorld :: world where
  "emptyWorld =
     \<lparr>keys = (\<lambda>_. \<lparr>key_value = None, isDown = False, isUp = True\<rparr>),
      keyboards = (\<lambda>_. \<lparr>xDirection = 0, yDirection = 0, powerHit = 0,
         powerHitKeyIsDownPrevious = False,
         leftKey = 0, rightKey = 0, upKey = 0, downKey = 0, powerHitKey = 0,
         downRightKey = None\<rparr>),
      nextRef = 0, window = []\<rparr>"

text \<open>
  The device of the scenarios: the five keys on \<open>A\<close>, \<open>D\<close>, \<open>W\<close>, \<open>S\<close> and \<open>Space\<close>, and
  the sixth on the code \<open>c\<close> (\<open>None\<close> when the caller passes no \<open>downRight\<close>), built
  in the empty world, with the three fields of \<open>super()\<close> at zero.
\<close>

definition device :: "string option \<Rightarrow> ref \<times> world" where
  "device c =
     new_PikaKeyboard \<lparr>xDirection = 0, yDirection = 0, powerHit = 0\<rparr>
       (Some ''A'') (Some ''D'') (Some ''W'') (Some ''S'') (Some ''Space'') c emptyWorld"

text \<open>
  What a program can do with the module: build a keyboard, call its three methods,
  operate on one of its keys, and let the user type. A run stops at the first
  exception.
\<close>

datatype action =
    Construct PikaUserInput "string option" "string option" "string option"
      "string option" "string option" "string option"
  | GetInput ref
  | KeyboardSubscribe ref
  | KeyboardUnsubscribe ref
  | KeyOp ref key_op

fun perform :: "action \<Rightarrow> world \<Rightarrow> error + world" where
  "perform (Construct base l r u d p c) w = Inr (snd (new_PikaKeyboard base l r u d p c w))"
| "perform (GetInput d) w = Inr (getInput d w)"
| "perform (KeyboardSubscribe d) w = PikaKeyboard_subscribe d w"
| "perform (KeyboardUnsubscribe d) w = PikaKeyboard_unsubscribe d w"
| "perform (KeyOp k op) w = Inr (key_step k op w)"

fun run :: "action list \<Rightarrow> world \<Rightarrow> error + world" where
  "run [] w = Inr w"
| "run (a # as) w = (case perform a w of Inl e \<Rightarrow> Inl e | Inr w' \<Rightarrow> run as w')"

text \<open>
  What the last call \<open>getInput\<close> of keyboard \<open>d\<close> in a run read in \<open>isDown\<close> of the
  power hit key; \<open>b\<close> when the run has no such call.
\<close>

fun lastSample :: "ref \<Rightarrow> action list \<Rightarrow> world \<Rightarrow> bool \<Rightarrow> bool" where
  "lastSample d [] w b = b"
| "lastSample d (a # as) w b =
     (case perform a w of
        Inl e \<Rightarrow> b
      | Inr w' \<Rightarrow>
          lastSample d as w'
            (case a of
               GetInput e \<Rightarrow>
                 if e = d then isDown (keys w (powerHitKey (keyboards w d))) else b
             | _ \<Rightarrow> b))"

section \<open>What each operation leaves in each field\<close>

lemma addEventListener_fields:
  "keys (addEventListener ty cb w) = keys w"
  "keyboards (addEventListener ty cb w) = keyboards w"
  "nextRef (addEventListener ty cb w) = nextRef w"
  "window (addEventListener ty cb w) = appendNew (ty, cb) (window w)"
  by (simp_all add: addEventListener_def)

lemma removeEventListener_fields:
  "keys (removeEventListener ty cb w) = keys w"
  "keyboards (removeEventListener ty cb w) = keyboards w"
  "nextRef (removeEventListener ty cb w) = nextRef w"
  "window (removeEventListener ty cb w) = remove1 (ty, cb) (window w)"
  by (simp_all add: removeEventListener_def)

lemma Key_subscribe_fields:
  "keys (Key_subscribe k w) = keys w"
  "keyboards (Key_subscribe k w) = keyboards w"
  "nextRef (Key_subscribe k w) = nextRef w"
  "window (Key_subscribe k w) =
     appendNew (keydown, downListener k) (appendNew (keyup, upListener k) (window w))"
  by (simp_all add: Key_subscribe_def addEventListener_fields)

lemma Key_unsubscribe_fields:
  "keys (Key_unsubscribe k w) = (keys w)(k := (keys w k)\<lparr>isDown := False, isUp := True\<rparr>)"
  "keyboards (Key_unsubscribe k w) = keyboards w"
  "nextRef (Key_unsubscribe k w) = nextRef w"
  "window (Key_unsubscribe k w) =
     remove1 (keyup, upListener k) (remove1 (keydown, downListener k) (window w))"
  by (simp_all add: Key_unsubscribe_def removeEventListener_fields Let_def)

lemma downHandler_fields:
  "keyboards (snd (downHandler k ev w)) = keyboards w"
  "nextRef (snd (downHandler k ev w)) = nextRef w"
  "window (snd (downHandler k ev w)) = window w"
  "keys (snd (downHandler k ev w)) =
     (if Some (code ev) = key_value (keys w k)
      then (keys w)(k := (keys w k)\<lparr>isDown := True, isUp := False\<rparr>) else keys w)"
  "code (fst (downHandler k ev w)) = code ev"
  by (simp_all add: downHandler_def)

lemma upHandler_fields:
  "keyboards (snd (upHandler k ev w)) = keyboards w"
  "nextRef (snd (upHandler k ev w)) = nextRef w"
  "window (snd (upHandler k ev w)) = window w"
  "keys (snd (upHandler k ev w)) =
     (if Some (code ev) = key_value (keys w k)
      then (keys w)(k := (keys w k)\<lparr>isDown := False, isUp := True\<rparr>) else keys w)"
  "code (fst (upHandler k ev w)) = code ev"
  by (simp_all add: upHandler_def)

lemma invoke_fields:
  "keyboards (snd (invoke cb s)) = keyboards (snd s)"
  "nextRef (snd (invoke cb s)) = nextRef (snd s)"
  "window (snd (invoke cb s)) = window (snd s)"
  "code (fst (invoke cb s)) = code (fst s)"
  by (cases cb; cases s; simp add: downHandler_fields upHandler_fields)+

lemma fold_invoke_fields:
  "keyboards (snd (fold invoke cbs s)) = keyboards (snd s)"
  "nextRef (snd (fold invoke cbs s)) = nextRef (snd s)"
  "window (snd (fold invoke cbs s)) = window (snd s)"
  "code (fst (fold invoke cbs s)) = code (fst s)"
  by (induction cbs arbitrary: s; simp add: invoke_fields)+

lemma dispatchEvent_fields:
  "keyboards (snd (dispatchEvent ty ev w)) = keyboards w"
  "nextRef (snd (dispatchEvent ty ev w)) = nextRef w"
  "window (snd (dispatchEvent ty ev w)) = window w"
  "code (fst (dispatchEvent ty ev w)) = code ev"
  by (simp_all add: dispatchEvent_def fold_invoke_fields)

lemma getInput_fields:
  "keys (getInput d w) = keys w"
  "nextRef (getInput d w) = nextRef w"
  "window (getInput d w) = window w"
  by (simp_all add: getInput_def Let_def)


lemma well_typed_cases:
  "well_typed e \<longleftrightarrow> (\<exists>k. e = (keyup, upListener k) \<or> e = (keydown, downListener k))"
  by (cases e rule: well_typed.cases) auto

lemma keys_fold_down:
  assumes "\<forall>cb\<in>set cbs. \<exists>j. cb = downListener j"
  shows "keys (snd (fold invoke cbs (ev, w))) k =
     (if downListener k \<in> set cbs \<and> Some (code ev) = key_value (keys w k)
      then (keys w k)\<lparr>isDown := True, isUp := False\<rparr> else keys w k)"
  using assms
proof (induction cbs arbitrary: ev w)
  case Nil
  show ?case by simp
next
  case (Cons cb cbs)
  then obtain j where j: "cb = downListener j" by auto
  obtain ev' w' where s: "downHandler j ev w = (ev', w')" by (cases "downHandler j ev w")
  have c: "code ev' = code ev" using downHandler_fields(5)[of j ev w] s by simp
  have k: "keys w' = (if Some (code ev) = key_value (keys w j)
      then (keys w)(j := (keys w j)\<lparr>isDown := True, isUp := False\<rparr>) else keys w)"
    using downHandler_fields(4)[of j ev w] s by simp
  have "keys (snd (fold invoke (cb # cbs) (ev, w))) k = keys (snd (fold invoke cbs (ev', w'))) k"
    by (simp add: j s)
  also have "\<dots> = (if downListener k \<in> set cbs \<and> Some (code ev') = key_value (keys w' k)
      then (keys w' k)\<lparr>isDown := True, isUp := False\<rparr> else keys w' k)"
    using Cons by simp
  also have "\<dots> = (if downListener k \<in> set (cb # cbs) \<and> Some (code ev) = key_value (keys w k)
      then (keys w k)\<lparr>isDown := True, isUp := False\<rparr> else keys w k)"
    by (auto simp: c k j)
  finally show ?case .
qed

lemma keys_fold_up:
  assumes "\<forall>cb\<in>set cbs. \<exists>j. cb = upListener j"
  shows "keys (snd (fold invoke cbs (ev, w))) k =
     (if upListener k \<in> set cbs \<and> Some (code ev) = key_value (keys w k)
      then (keys w k)\<lparr>isDown := False, isUp := True\<rparr> else keys w k)"
  using assms
proof (induction cbs arbitrary: ev w)
  case Nil
  show ?case by simp
next
  case (Cons cb cbs)
  then obtain j where j: "cb = upListener j" by auto
  obtain ev' w' where s: "upHandler j ev w = (ev', w')" by (cases "upHandler j ev w")
  have c: "code ev' = code ev" using upHandler_fields(5)[of j ev w] s by simp
  have k: "keys w' = (if Some (code ev) = key_value (keys w j)
      then (keys w)(j := (keys w j)\<lparr>isDown := False, isUp := True\<rparr>) else keys w)"
    using upHandler_fields(4)[of j ev w] s by simp
  have "keys (snd (fold invoke (cb # cbs) (ev, w))) k = keys (snd (fold invoke cbs (ev', w'))) k"
    by (simp add: j s)
  also have "\<dots> = (if upListener k \<in> set cbs \<and> Some (code ev') = key_value (keys w' k)
      then (keys w' k)\<lparr>isDown := False, isUp := True\<rparr> else keys w' k)"
    using Cons by simp
  also have "\<dots> = (if upListener k \<in> set (cb # cbs) \<and> Some (code ev) = key_value (keys w k)
      then (keys w k)\<lparr>isDown := False, isUp := True\<rparr> else keys w k)"
    by (auto simp: c k j)
  finally show ?case .
qed

lemma typed_keydown_callbacks:
  assumes "list_all well_typed ls"
  shows "\<forall>cb\<in>set (map snd (filter (\<lambda>e. fst e = keydown) ls)). \<exists>j. cb = downListener j"
  using assms by (auto simp: list_all_iff well_typed_cases)

lemma typed_keyup_callbacks:
  assumes "list_all well_typed ls"
  shows "\<forall>cb\<in>set (map snd (filter (\<lambda>e. fst e = keyup) ls)). \<exists>j. cb = upListener j"
  using assms by (auto simp: list_all_iff well_typed_cases)

lemma callbacks_of_type:
  "cb \<in> set (map snd (filter (\<lambda>e. fst e = ty) ls)) \<longleftrightarrow> (ty, cb) \<in> set ls"
  by force

lemma keys_keydown:
  assumes "list_all well_typed (window w)"
  shows "keys (snd (dispatchEvent keydown ev w)) k =
     (if (keydown, downListener k) \<in> set (window w) \<and> Some (code ev) = key_value (keys w k)
      then (keys w k)\<lparr>isDown := True, isUp := False\<rparr> else keys w k)"
  unfolding dispatchEvent_def
  using keys_fold_down [OF typed_keydown_callbacks [OF assms], of ev w k]
  by (simp only: callbacks_of_type)

lemma keys_keyup:
  assumes "list_all well_typed (window w)"
  shows "keys (snd (dispatchEvent keyup ev w)) k =
     (if (keyup, upListener k) \<in> set (window w) \<and> Some (code ev) = key_value (keys w k)
      then (keys w k)\<lparr>isDown := False, isUp := True\<rparr> else keys w k)"
  unfolding dispatchEvent_def
  using keys_fold_up [OF typed_keyup_callbacks [OF assms], of ev w k]
  by (simp only: callbacks_of_type)


lemma new_Key_fields:
  "fst (new_Key v w) = nextRef w"
  "nextRef (snd (new_Key v w)) = Suc (nextRef w)"
  "keys (snd (new_Key v w)) =
     (keys w)(nextRef w := \<lparr>key_value = v, isDown = False, isUp = True\<rparr>)"
  "keyboards (snd (new_Key v w)) = keyboards w"
  "window (snd (new_Key v w)) =
     appendNew (keydown, downListener (nextRef w))
       (appendNew (keyup, upListener (nextRef w)) (window w))"
  by (simp_all add: new_Key_def Let_def Key_subscribe_fields)

lemma new_PikaKeyboard_fields:
  "fst (new_PikaKeyboard base l r u d p c w) = nextRef w"
  "nextRef (snd (new_PikaKeyboard base l r u d p c w)) = nextRef w + 7"
  "keyboards (snd (new_PikaKeyboard base l r u d p c w)) =
     (keyboards w)(nextRef w :=
        \<lparr>xDirection = xDirection base, yDirection = yDirection base,
         powerHit = powerHit base, powerHitKeyIsDownPrevious = False,
         leftKey = nextRef w + 1, rightKey = nextRef w + 2, upKey = nextRef w + 3,
         downKey = nextRef w + 4, powerHitKey = nextRef w + 5,
         downRightKey = Some (nextRef w + 6)\<rparr>)"
  "keys (snd (new_PikaKeyboard base l r u d p c w)) =
     (keys w)
       (nextRef w + 1 := \<lparr>key_value = l, isDown = False, isUp = True\<rparr>,
        nextRef w + 2 := \<lparr>key_value = r, isDown = False, isUp = True\<rparr>,
        nextRef w + 3 := \<lparr>key_value = u, isDown = False, isUp = True\<rparr>,
        nextRef w + 4 := \<lparr>key_value = d, isDown = False, isUp = True\<rparr>,
        nextRef w + 5 := \<lparr>key_value = p, isDown = False, isUp = True\<rparr>,
        nextRef w + 6 := \<lparr>key_value = c, isDown = False, isUp = True\<rparr>)"
  "window (snd (new_PikaKeyboard base l r u d p c w)) =
     appendNew (keydown, downListener (nextRef w + 6))
      (appendNew (keyup, upListener (nextRef w + 6))
     (appendNew (keydown, downListener (nextRef w + 5))
      (appendNew (keyup, upListener (nextRef w + 5))
     (appendNew (keydown, downListener (nextRef w + 4))
      (appendNew (keyup, upListener (nextRef w + 4))
     (appendNew (keydown, downListener (nextRef w + 3))
      (appendNew (keyup, upListener (nextRef w + 3))
     (appendNew (keydown, downListener (nextRef w + 2))
      (appendNew (keyup, upListener (nextRef w + 2))
     (appendNew (keydown, downListener (nextRef w + 1))
      (appendNew (keyup, upListener (nextRef w + 1)) (window w))))))))))))"
  by (simp_all add: new_PikaKeyboard_def Let_def split_def new_Key_fields
        numeral_eq_Suc)

lemma device_fields:
  "fst (device c) = 0"
  "keyboards (snd (device c)) =
     (keyboards emptyWorld)(0 :=
       \<lparr>xDirection = 0, yDirection = 0, powerHit = 0, powerHitKeyIsDownPrevious = False,
        leftKey = 1, rightKey = 2, upKey = 3, downKey = 4, powerHitKey = 5,
        downRightKey = Some 6\<rparr>)"
  "keys (snd (device c)) =
     (keys emptyWorld)
       (1 := \<lparr>key_value = Some ''A'', isDown = False, isUp = True\<rparr>,
        2 := \<lparr>key_value = Some ''D'', isDown = False, isUp = True\<rparr>,
        3 := \<lparr>key_value = Some ''W'', isDown = False, isUp = True\<rparr>,
        4 := \<lparr>key_value = Some ''S'', isDown = False, isUp = True\<rparr>,
        5 := \<lparr>key_value = Some ''Space'', isDown = False, isUp = True\<rparr>,
        6 := \<lparr>key_value = c, isDown = False, isUp = True\<rparr>)"
  "window (snd (device c)) =
     [(keyup, upListener 1), (keydown, downListener 1),
      (keyup, upListener 2), (keydown, downListener 2),
      (keyup, upListener 3), (keydown, downListener 3),
      (keyup, upListener 4), (keydown, downListener 4),
      (keyup, upListener 5), (keydown, downListener 5),
      (keyup, upListener 6), (keydown, downListener 6)]"
  by (simp_all add: device_def new_PikaKeyboard_fields emptyWorld_def appendNew_def
        numeral_2_eq_2)

lemma key_value_invoke:
  "key_value (keys (snd (invoke cb s)) k) = key_value (keys (snd s) k)"
  by (cases cb; cases s) (simp_all add: downHandler_fields upHandler_fields)

lemma key_value_fold_invoke:
  "key_value (keys (snd (fold invoke cbs s)) k) = key_value (keys (snd s) k)"
  by (induction cbs arbitrary: s) (simp_all add: key_value_invoke)

lemma key_value_dispatchEvent:
  "key_value (keys (snd (dispatchEvent ty ev w)) k) = key_value (keys w k)"
  by (simp add: dispatchEvent_def key_value_fold_invoke)

lemma press_fields:
  "keyboards (press c w) = keyboards w"
  "nextRef (press c w) = nextRef w"
  "window (press c w) = window w"
  "key_value (keys (press c w) k) = key_value (keys w k)"
  by (simp_all add: press_def dispatchEvent_fields key_value_dispatchEvent)

lemma release_fields:
  "keyboards (release c w) = keyboards w"
  "nextRef (release c w) = nextRef w"
  "window (release c w) = window w"
  "key_value (keys (release c w) k) = key_value (keys w k)"
  by (simp_all add: release_def dispatchEvent_fields key_value_dispatchEvent)

lemma press_key:
  assumes "list_all well_typed (window w)"
  shows "isDown (keys (press c w) k) =
           (if (keydown, downListener k) \<in> set (window w) \<and> Some c = key_value (keys w k)
            then True else isDown (keys w k))"
    and "isUp (keys (press c w) k) =
           (if (keydown, downListener k) \<in> set (window w) \<and> Some c = key_value (keys w k)
            then False else isUp (keys w k))"
  by (simp_all add: press_def keys_keydown [OF assms])

lemma release_key:
  assumes "list_all well_typed (window w)"
  shows "isDown (keys (release c w) k) =
           (if (keyup, upListener k) \<in> set (window w) \<and> Some c = key_value (keys w k)
            then False else isDown (keys w k))"
    and "isUp (keys (release c w) k) =
           (if (keyup, upListener k) \<in> set (window w) \<and> Some c = key_value (keys w k)
            then True else isUp (keys w k))"
  by (simp_all add: release_def keys_keyup [OF assms])

lemma getInput_keyboard:
  "xDirection (keyboards (getInput d w) d) =
     (if isDown (keys w (leftKey (keyboards w d))) then - 1
      else if isDown (keys w (rightKey (keyboards w d))) \<or>
              (case downRightKey (keyboards w d) of None \<Rightarrow> False
               | Some k \<Rightarrow> isDown (keys w k)) then 1
      else 0)"
  "yDirection (keyboards (getInput d w) d) =
     (if isDown (keys w (upKey (keyboards w d))) then - 1
      else if isDown (keys w (downKey (keyboards w d))) \<or>
              (case downRightKey (keyboards w d) of None \<Rightarrow> False
               | Some k \<Rightarrow> isDown (keys w k)) then 1
      else 0)"
  "powerHit (keyboards (getInput d w) d) =
     (if \<not> powerHitKeyIsDownPrevious (keyboards w d) \<and>
         isDown (keys w (powerHitKey (keyboards w d))) then 1 else 0)"
  "powerHitKeyIsDownPrevious (keyboards (getInput d w) d) =
     isDown (keys w (powerHitKey (keyboards w d)))"
  by (simp_all add: getInput_def Let_def)

lemma getInput_refs:
  "leftKey (keyboards (getInput d w) d') = leftKey (keyboards w d')"
  "rightKey (keyboards (getInput d w) d') = rightKey (keyboards w d')"
  "upKey (keyboards (getInput d w) d') = upKey (keyboards w d')"
  "downKey (keyboards (getInput d w) d') = downKey (keyboards w d')"
  "powerHitKey (keyboards (getInput d w) d') = powerHitKey (keyboards w d')"
  "downRightKey (keyboards (getInput d w) d') = downRightKey (keyboards w d')"
  by (simp_all add: getInput_def Let_def)

lemmas run_simps =
  device_fields press_fields release_fields press_key release_key
  getInput_fields getInput_keyboard getInput_refs

lemma dispatchAll_fields:
  "keyboards (dispatchAll evs w) = keyboards w"
  "window (dispatchAll evs w) = window w"
  "nextRef (dispatchAll evs w) = nextRef w"
  by (induction evs w rule: dispatchAll.induct) (simp_all add: dispatchEvent_fields)

lemma pulses_latched:
  assumes "heldAtEachFrame d bs w" and "powerHitKeyIsDownPrevious (keyboards w d)"
  shows "pulses d bs w = replicate (length bs) 0"
  using assms
proof (induction bs arbitrary: w)
  case Nil
  show ?case by simp
next
  case (Cons evs rest)
  let ?w1 = "dispatchAll evs w"
  from Cons.prems have held: "isDown (keys ?w1 (powerHitKey (keyboards w d)))"
    and rest: "heldAtEachFrame d rest (getInput d ?w1)"
    by (simp_all add: Let_def dispatchAll_fields)
  from Cons.prems(2) have p: "powerHit (keyboards (getInput d ?w1) d) = 0"
    by (simp add: getInput_keyboard dispatchAll_fields)
  from held have l: "powerHitKeyIsDownPrevious (keyboards (getInput d ?w1) d)"
    by (simp add: getInput_keyboard dispatchAll_fields)
  from Cons.IH [OF rest l] p show ?case
    by (simp add: Let_def)
qed

lemma pulses_hold:
  assumes "heldAtEachFrame d (evs # rest) w"
  shows "pulses d (evs # rest) w =
           (if powerHitKeyIsDownPrevious (keyboards w d) then 0 else 1) #
           replicate (length rest) 0"
proof -
  let ?w1 = "dispatchAll evs w"
  from assms have held: "isDown (keys ?w1 (powerHitKey (keyboards w d)))"
    and rest: "heldAtEachFrame d rest (getInput d ?w1)"
    by (simp_all add: Let_def dispatchAll_fields)
  from held have p: "powerHit (keyboards (getInput d ?w1) d) =
      (if powerHitKeyIsDownPrevious (keyboards w d) then 0 else 1)"
    by (simp add: getInput_keyboard dispatchAll_fields)
  from held have l: "powerHitKeyIsDownPrevious (keyboards (getInput d ?w1) d)"
    by (simp add: getInput_keyboard dispatchAll_fields)
  from pulses_latched [OF rest l] p show ?thesis
    by (simp add: Let_def)
qed

lemmas event_simps =
  dispatchAll.simps dispatchAll_fields dispatchEvent_fields key_value_dispatchEvent
  keys_keydown keys_keyup

section \<open>The frame step\<close>

text \<open>
  Claim C2. When the left key and the right key are both down, whatever the state of
  the sixth key, \<open>getInput\<close> leaves \<open>xDirection = -1\<close>.
\<close>

theorem getInput_left_priority:
  assumes "isDown (keys w (leftKey (keyboards w d)))"
    and "isDown (keys w (rightKey (keyboards w d)))"
  shows "xDirection (keyboards (getInput d w) d) = - 1"
  using assms by (simp add: getInput_keyboard)

theorem getInput_left_priority_witness:
  "isDown (keys (press ''V'' (press ''D'' (press ''A'' (snd (device (Some ''V''))))))
            (leftKey (keyboards (press ''V'' (press ''D'' (press ''A'' (snd (device (Some ''V''))))))
               (fst (device (Some ''V'')))))) \<and>
   isDown (keys (press ''V'' (press ''D'' (press ''A'' (snd (device (Some ''V''))))))
            (rightKey (keyboards (press ''V'' (press ''D'' (press ''A'' (snd (device (Some ''V''))))))
               (fst (device (Some ''V'')))))) \<and>
   xDirection (keyboards
      (getInput (fst (device (Some ''V'')))
         (press ''V'' (press ''D'' (press ''A'' (snd (device (Some ''V'')))))))
      (fst (device (Some ''V'')))) = - 1"
proof -
  let ?w = "press ''V'' (press ''D'' (press ''A'' (snd (device (Some ''V'')))))"
  let ?d = "fst (device (Some ''V''))"
  have l: "isDown (keys ?w (leftKey (keyboards ?w ?d)))"
    by (simp add: run_simps)
  have r: "isDown (keys ?w (rightKey (keyboards ?w ?d)))"
    by (simp add: run_simps)
  from l r getInput_left_priority [OF l r] show ?thesis by simp
qed

text \<open>
  Claim C4. When the sixth key is down and left, right, up and down are up, \<open>getInput\<close>
  leaves \<open>xDirection = 1\<close> and \<open>yDirection = 1\<close>. When the sixth key is not down and
  left and up are up, the right key alone gives \<open>(1, 0)\<close> and the down key alone gives
  \<open>(0, 1)\<close>: neither gives both directions.
\<close>

theorem getInput_combo:
  "(\<forall>c. downRightKey (keyboards w d) = Some c \<and> isDown (keys w c) \<and>
        \<not> isDown (keys w (leftKey (keyboards w d))) \<and>
        \<not> isDown (keys w (rightKey (keyboards w d))) \<and>
        \<not> isDown (keys w (upKey (keyboards w d))) \<and>
        \<not> isDown (keys w (downKey (keyboards w d))) \<longrightarrow>
        xDirection (keyboards (getInput d w) d) = 1 \<and>
        yDirection (keyboards (getInput d w) d) = 1) \<and>
   ((\<forall>c. downRightKey (keyboards w d) = Some c \<longrightarrow> \<not> isDown (keys w c)) \<and>
        \<not> isDown (keys w (leftKey (keyboards w d))) \<and>
        \<not> isDown (keys w (upKey (keyboards w d))) \<longrightarrow>
        (isDown (keys w (rightKey (keyboards w d))) \<and>
         \<not> isDown (keys w (downKey (keyboards w d))) \<longrightarrow>
           xDirection (keyboards (getInput d w) d) = 1 \<and>
           yDirection (keyboards (getInput d w) d) = 0) \<and>
        (isDown (keys w (downKey (keyboards w d))) \<and>
         \<not> isDown (keys w (rightKey (keyboards w d))) \<longrightarrow>
           xDirection (keyboards (getInput d w) d) = 0 \<and>
           yDirection (keyboards (getInput d w) d) = 1))"
  by (auto simp: getInput_keyboard split: option.splits)

theorem getInput_combo_witness:
  "let d = fst (device (Some ''V''));
       wa = press ''V'' (snd (device (Some ''V'')));
       wb = press ''D'' (snd (device (Some ''V'')));
       wc = press ''S'' (snd (device (Some ''V'')))
   in downRightKey (keyboards wa d) = Some 6 \<and> isDown (keys wa 6) \<and>
      \<not> isDown (keys wa (leftKey (keyboards wa d))) \<and>
      \<not> isDown (keys wa (rightKey (keyboards wa d))) \<and>
      \<not> isDown (keys wa (upKey (keyboards wa d))) \<and>
      \<not> isDown (keys wa (downKey (keyboards wa d))) \<and>
      xDirection (keyboards (getInput d wa) d) = 1 \<and>
      yDirection (keyboards (getInput d wa) d) = 1 \<and>
      downRightKey (keyboards wb d) = Some 6 \<and> \<not> isDown (keys wb 6) \<and>
      \<not> isDown (keys wb (leftKey (keyboards wb d))) \<and>
      \<not> isDown (keys wb (upKey (keyboards wb d))) \<and>
      isDown (keys wb (rightKey (keyboards wb d))) \<and>
      \<not> isDown (keys wb (downKey (keyboards wb d))) \<and>
      xDirection (keyboards (getInput d wb) d) = 1 \<and>
      yDirection (keyboards (getInput d wb) d) = 0 \<and>
      downRightKey (keyboards wc d) = Some 6 \<and> \<not> isDown (keys wc 6) \<and>
      \<not> isDown (keys wc (leftKey (keyboards wc d))) \<and>
      \<not> isDown (keys wc (upKey (keyboards wc d))) \<and>
      isDown (keys wc (downKey (keyboards wc d))) \<and>
      \<not> isDown (keys wc (rightKey (keyboards wc d))) \<and>
      xDirection (keyboards (getInput d wc) d) = 0 \<and>
      yDirection (keyboards (getInput d wc) d) = 1"
proof -
  let ?d = "fst (device (Some ''V''))"
  let ?wa = "press ''V'' (snd (device (Some ''V'')))"
  let ?wb = "press ''D'' (snd (device (Some ''V'')))"
  let ?wc = "press ''S'' (snd (device (Some ''V'')))"
  have a: "downRightKey (keyboards ?wa ?d) = Some 6" "isDown (keys ?wa 6)"
      "\<not> isDown (keys ?wa (leftKey (keyboards ?wa ?d)))"
      "\<not> isDown (keys ?wa (rightKey (keyboards ?wa ?d)))"
      "\<not> isDown (keys ?wa (upKey (keyboards ?wa ?d)))"
      "\<not> isDown (keys ?wa (downKey (keyboards ?wa ?d)))"
    by (simp_all add: run_simps)
  have b: "downRightKey (keyboards ?wb ?d) = Some 6" "\<not> isDown (keys ?wb 6)"
      "\<not> isDown (keys ?wb (leftKey (keyboards ?wb ?d)))"
      "\<not> isDown (keys ?wb (upKey (keyboards ?wb ?d)))"
      "isDown (keys ?wb (rightKey (keyboards ?wb ?d)))"
      "\<not> isDown (keys ?wb (downKey (keyboards ?wb ?d)))"
    by (simp_all add: run_simps)
  have c: "downRightKey (keyboards ?wc ?d) = Some 6" "\<not> isDown (keys ?wc 6)"
      "\<not> isDown (keys ?wc (leftKey (keyboards ?wc ?d)))"
      "\<not> isDown (keys ?wc (upKey (keyboards ?wc ?d)))"
      "isDown (keys ?wc (downKey (keyboards ?wc ?d)))"
      "\<not> isDown (keys ?wc (rightKey (keyboards ?wc ?d)))"
    by (simp_all add: run_simps)
  have ra: "xDirection (keyboards (getInput ?d ?wa) ?d) = 1 \<and>
            yDirection (keyboards (getInput ?d ?wa) ?d) = 1"
    using getInput_combo [of ?wa ?d] a by blast
  have rb: "xDirection (keyboards (getInput ?d ?wb) ?d) = 1 \<and>
            yDirection (keyboards (getInput ?d ?wb) ?d) = 0"
    using getInput_combo [of ?wb ?d] b by auto
  have rc: "xDirection (keyboards (getInput ?d ?wc) ?d) = 0 \<and>
            yDirection (keyboards (getInput ?d ?wc) ?d) = 1"
    using getInput_combo [of ?wc ?d] c by auto
  show ?thesis unfolding Let_def using a b c ra rb rc by blast
qed

text \<open>
  Claim C8. The scenario of the specification on the device with keys \<open>A\<close>, \<open>D\<close>, \<open>W\<close>,
  \<open>S\<close>, \<open>Space\<close> and no sixth code: press \<open>A\<close>, frame; press \<open>Space\<close>, frame; frame;
  release both, frame.
\<close>

theorem scenario_A_Space:
  "let d = fst (device None);
       w1 = getInput d (press ''A'' (snd (device None)));
       w2 = getInput d (press ''Space'' w1);
       w3 = getInput d w2;
       w4 = getInput d (release ''Space'' (release ''A'' w3))
   in xDirection (keyboards w1 d) = - 1 \<and> yDirection (keyboards w1 d) = 0 \<and>
      powerHit (keyboards w1 d) = 0 \<and>
      xDirection (keyboards w2 d) = - 1 \<and> yDirection (keyboards w2 d) = 0 \<and>
      powerHit (keyboards w2 d) = 1 \<and>
      xDirection (keyboards w3 d) = - 1 \<and> yDirection (keyboards w3 d) = 0 \<and>
      powerHit (keyboards w3 d) = 0 \<and>
      xDirection (keyboards w4 d) = 0 \<and> yDirection (keyboards w4 d) = 0 \<and>
      powerHit (keyboards w4 d) = 0"
  unfolding Let_def by (simp add: run_simps)

text \<open>
  Claim C10. \<open>getInput\<close> writes the four fields \<open>xDirection\<close>, \<open>yDirection\<close>, \<open>powerHit\<close>
  and \<open>powerHitKeyIsDownPrevious\<close> of its keyboard and nothing else: every \<open>Key\<close> object
  is as before (its \<open>value\<close>, \<open>isDown\<close> and \<open>isUp\<close>), the listener list is as before, and
  the keyboard holds the same six keys.
\<close>

theorem getInput_frame:
  "(\<exists>x y p l. getInput d w =
       w\<lparr>keyboards := (keyboards w)(d :=
          (keyboards w d)\<lparr>xDirection := x, yDirection := y, powerHit := p,
                          powerHitKeyIsDownPrevious := l\<rparr>)\<rparr>) \<and>
   keys (getInput d w) = keys w \<and>
   window (getInput d w) = window w \<and>
   leftKey (keyboards (getInput d w) d) = leftKey (keyboards w d) \<and>
   rightKey (keyboards (getInput d w) d) = rightKey (keyboards w d) \<and>
   upKey (keyboards (getInput d w) d) = upKey (keyboards w d) \<and>
   downKey (keyboards (getInput d w) d) = downKey (keyboards w d) \<and>
   powerHitKey (keyboards (getInput d w) d) = powerHitKey (keyboards w d) \<and>
   downRightKey (keyboards (getInput d w) d) = downRightKey (keyboards w d)"
proof -
  have "\<exists>x y p l. getInput d w =
       w\<lparr>keyboards := (keyboards w)(d :=
          (keyboards w d)\<lparr>xDirection := x, yDirection := y, powerHit := p,
                          powerHitKeyIsDownPrevious := l\<rparr>)\<rparr>"
    unfolding getInput_def Let_def by blast
  then show ?thesis
    by (simp add: getInput_fields getInput_refs)
qed

section \<open>The listener list stays well formed\<close>

lemma release_first_iff:
  "list_all (release_before ls) ls \<longleftrightarrow>
     (\<forall>k. (keydown, downListener k) \<in> set ls \<longrightarrow>
        (keyup, upListener k) \<in> set (takeWhile (\<lambda>e. e \<noteq> (keydown, downListener k)) ls))"
proof
  assume a: "list_all (release_before ls) ls"
  show "\<forall>k. (keydown, downListener k) \<in> set ls \<longrightarrow>
        (keyup, upListener k) \<in> set (takeWhile (\<lambda>e. e \<noteq> (keydown, downListener k)) ls)"
  proof (intro allI impI)
    fix k assume "(keydown, downListener k) \<in> set ls"
    with a have "release_before ls (keydown, downListener k)"
      unfolding list_all_iff by blast
    then show "(keyup, upListener k) \<in> set (takeWhile (\<lambda>e. e \<noteq> (keydown, downListener k)) ls)"
      by (simp add: registered_before_def)
  qed
next
  assume a: "\<forall>k. (keydown, downListener k) \<in> set ls \<longrightarrow>
        (keyup, upListener k) \<in> set (takeWhile (\<lambda>e. e \<noteq> (keydown, downListener k)) ls)"
  have "release_before ls e" if "e \<in> set ls" for e
    using that a by (cases "(ls, e)" rule: release_before.cases) (auto simp: registered_before_def)
  then show "list_all (release_before ls) ls"
    by (simp add: list_all_iff)
qed

lemma listeners_ok_iff:
  "listeners_ok ls \<longleftrightarrow>
     distinct ls \<and> (\<forall>e\<in>set ls. well_typed e) \<and>
     (\<forall>k. (keydown, downListener k) \<in> set ls \<longrightarrow>
        (keyup, upListener k) \<in> set (takeWhile (\<lambda>e. e \<noteq> (keydown, downListener k)) ls))"
  unfolding listeners_ok_def release_first_iff by (simp add: list_all_iff)

lemma takeWhile_remove1:
  assumes "x \<in> set (takeWhile (\<lambda>e. e \<noteq> y) ls)" and "z \<noteq> x" and "z \<noteq> y"
  shows "x \<in> set (takeWhile (\<lambda>e. e \<noteq> y) (remove1 z ls))"
  using assms by (induction ls) (auto split: if_splits)

lemma takeWhile_snoc_other:
  assumes "y \<in> set ls"
  shows "takeWhile (\<lambda>e. e \<noteq> y) (ls @ [z]) = takeWhile (\<lambda>e. e \<noteq> y) ls"
  using assms by (induction ls) auto

lemma takeWhile_snoc_self:
  assumes "y \<notin> set ls"
  shows "takeWhile (\<lambda>e. e \<noteq> y) (ls @ [y]) = ls"
  using assms by (induction ls) auto

lemma listeners_ok_appendNew_up:
  assumes "listeners_ok ls"
  shows "listeners_ok (appendNew (keyup, upListener k) ls)"
proof (cases "(keyup, upListener k) \<in> set ls")
  case True
  with assms show ?thesis by (simp add: appendNew_def)
next
  case False
  from assms have d: "distinct ls" and t: "\<forall>e\<in>set ls. well_typed e"
    and o: "\<And>j. (keydown, downListener j) \<in> set ls \<Longrightarrow>
        (keyup, upListener j) \<in> set (takeWhile (\<lambda>e. e \<noteq> (keydown, downListener j)) ls)"
    unfolding listeners_ok_iff by blast+
  have "distinct (ls @ [(keyup, upListener k)])" using d False by simp
  moreover have "\<forall>e\<in>set (ls @ [(keyup, upListener k)]). well_typed e" using t by simp
  moreover have "(keyup, upListener j) \<in>
          set (takeWhile (\<lambda>e. e \<noteq> (keydown, downListener j)) (ls @ [(keyup, upListener k)]))"
    if "(keydown, downListener j) \<in> set (ls @ [(keyup, upListener k)])" for j
  proof -
    from that have m: "(keydown, downListener j) \<in> set ls" by simp
    show ?thesis unfolding takeWhile_snoc_other [OF m] by (rule o [OF m])
  qed
  ultimately have "listeners_ok (ls @ [(keyup, upListener k)])"
    unfolding listeners_ok_iff by blast
  with False show ?thesis by (simp add: appendNew_def)
qed

lemma listeners_ok_appendNew_down:
  assumes "listeners_ok ls" and "(keyup, upListener k) \<in> set ls"
  shows "listeners_ok (appendNew (keydown, downListener k) ls)"
proof (cases "(keydown, downListener k) \<in> set ls")
  case True
  with assms show ?thesis by (simp add: appendNew_def)
next
  case False
  from assms have d: "distinct ls" and t: "\<forall>e\<in>set ls. well_typed e"
    and o: "\<And>j. (keydown, downListener j) \<in> set ls \<Longrightarrow>
        (keyup, upListener j) \<in> set (takeWhile (\<lambda>e. e \<noteq> (keydown, downListener j)) ls)"
    unfolding listeners_ok_iff by blast+
  have "distinct (ls @ [(keydown, downListener k)])" using d False by simp
  moreover have "\<forall>e\<in>set (ls @ [(keydown, downListener k)]). well_typed e" using t by simp
  moreover have "(keyup, upListener j) \<in>
          set (takeWhile (\<lambda>e. e \<noteq> (keydown, downListener j)) (ls @ [(keydown, downListener k)]))"
    if "(keydown, downListener j) \<in> set (ls @ [(keydown, downListener k)])" for j
  proof (cases "j = k")
    case True
    show ?thesis unfolding True takeWhile_snoc_self [OF False] by (rule assms(2))
  next
    case False
    with that have m: "(keydown, downListener j) \<in> set ls" by simp
    show ?thesis unfolding takeWhile_snoc_other [OF m] by (rule o [OF m])
  qed
  ultimately have "listeners_ok (ls @ [(keydown, downListener k)])"
    unfolding listeners_ok_iff by blast
  with False show ?thesis by (simp add: appendNew_def)
qed

lemma set_appendNew: "set (appendNew e ls) = insert e (set ls)"
  by (auto simp: appendNew_def)

lemma listeners_ok_subscribe:
  assumes "listeners_ok ls"
  shows "listeners_ok
     (appendNew (keydown, downListener k) (appendNew (keyup, upListener k) ls))"
  by (rule listeners_ok_appendNew_down [OF listeners_ok_appendNew_up [OF assms]])
     (simp add: set_appendNew)

lemma listeners_ok_remove_down:
  assumes "listeners_ok ls"
  shows "listeners_ok (remove1 (keydown, downListener k) ls)"
proof -
  from assms have d: "distinct ls" and t: "\<forall>e\<in>set ls. well_typed e"
    and o: "\<And>j. (keydown, downListener j) \<in> set ls \<Longrightarrow>
        (keyup, upListener j) \<in> set (takeWhile (\<lambda>e. e \<noteq> (keydown, downListener j)) ls)"
    unfolding listeners_ok_iff by blast+
  let ?ls = "remove1 (keydown, downListener k) ls"
  have "distinct ?ls" using d by simp
  moreover have "\<forall>e\<in>set ?ls. well_typed e" using t d by simp
  moreover have "(keyup, upListener j) \<in> set (takeWhile (\<lambda>e. e \<noteq> (keydown, downListener j)) ?ls)"
    if "(keydown, downListener j) \<in> set ?ls" for j
  proof -
    from that d have m: "(keydown, downListener j) \<in> set ls" and n: "j \<noteq> k" by auto
    show ?thesis by (rule takeWhile_remove1 [OF o [OF m]]) (use n in simp_all)
  qed
  ultimately show ?thesis unfolding listeners_ok_iff by blast
qed

lemma listeners_ok_remove_up:
  assumes "listeners_ok ls" and "(keydown, downListener k) \<notin> set ls"
  shows "listeners_ok (remove1 (keyup, upListener k) ls)"
proof -
  from assms have d: "distinct ls" and t: "\<forall>e\<in>set ls. well_typed e"
    and o: "\<And>j. (keydown, downListener j) \<in> set ls \<Longrightarrow>
        (keyup, upListener j) \<in> set (takeWhile (\<lambda>e. e \<noteq> (keydown, downListener j)) ls)"
    unfolding listeners_ok_iff by blast+
  let ?ls = "remove1 (keyup, upListener k) ls"
  have "distinct ?ls" using d by simp
  moreover have "\<forall>e\<in>set ?ls. well_typed e" using t d by simp
  moreover have "(keyup, upListener j) \<in> set (takeWhile (\<lambda>e. e \<noteq> (keydown, downListener j)) ?ls)"
    if "(keydown, downListener j) \<in> set ?ls" for j
  proof -
    from that d have m: "(keydown, downListener j) \<in> set ls" by auto
    with assms(2) have n: "j \<noteq> k" by auto
    show ?thesis by (rule takeWhile_remove1 [OF o [OF m]]) (use n in simp_all)
  qed
  ultimately show ?thesis unfolding listeners_ok_iff by blast
qed

lemma listeners_ok_unsubscribe:
  assumes "listeners_ok ls"
  shows "listeners_ok (remove1 (keyup, upListener k) (remove1 (keydown, downListener k) ls))"
proof -
  from assms have "distinct ls" unfolding listeners_ok_iff by blast
  then have "(keydown, downListener k) \<notin> set (remove1 (keydown, downListener k) ls)"
    by simp
  with listeners_ok_remove_down [OF assms] show ?thesis
    by (rule listeners_ok_remove_up)
qed

lemma window_ok_Key_subscribe: "window_ok w \<Longrightarrow> window_ok (Key_subscribe k w)"
  by (simp add: window_ok_def Key_subscribe_fields listeners_ok_subscribe)

lemma window_ok_Key_unsubscribe: "window_ok w \<Longrightarrow> window_ok (Key_unsubscribe k w)"
  by (simp add: window_ok_def Key_unsubscribe_fields listeners_ok_unsubscribe)

lemma window_ok_same: "window w' = window w \<Longrightarrow> window_ok w' = window_ok w"
  by (simp add: window_ok_def)

section \<open>The two flags of a key\<close>

lemma consistent_invoke:
  assumes "consistent (keys (snd s) k)"
  shows "consistent (keys (snd (invoke cb s)) k)"
  using assms
  by (cases cb; cases s) (simp_all add: consistent_def downHandler_fields upHandler_fields)

lemma consistent_fold_invoke:
  assumes "consistent (keys (snd s) k)"
  shows "consistent (keys (snd (fold invoke cbs s)) k)"
  using assms by (induction cbs arbitrary: s) (simp_all add: consistent_invoke)

lemma consistent_key_step:
  assumes "consistent (keys w k)"
  shows "consistent (keys (key_step j op w) k)"
proof (cases op)
  case (OnPressEvent ev)
  with assms show ?thesis by (simp add: consistent_def downHandler_fields)
next
  case (OnReleaseEvent ev)
  with assms show ?thesis by (simp add: consistent_def upHandler_fields)
next
  case Subscribe
  with assms show ?thesis by (simp add: Key_subscribe_fields)
next
  case Unsubscribe
  with assms show ?thesis by (simp add: consistent_def Key_unsubscribe_fields)
next
  case (Deliver ty ev)
  with assms show ?thesis by (simp add: dispatchEvent_def consistent_fold_invoke)
qed

lemma consistent_key_run:
  assumes "consistent (keys w k)"
  shows "consistent (keys (key_run j ops w) k)"
  using assms unfolding key_run_def
  by (induction ops arbitrary: w) (simp_all add: consistent_key_step)

text \<open>
  Claim C5. A key has \<open>isDown = (\<not> isUp)\<close> when \<open>new Key\<close> returns, and after every
  operation of any sequence of handler calls, \<open>subscribe()\<close>, \<open>unsubscribe()\<close> and
  delivered events (\<open>take n ops\<close> is the sequence up to its \<open>n\<close>-th operation).
\<close>

theorem Key_flags_opposite:
  "isDown (keys (snd (new_Key v w)) (fst (new_Key v w))) =
     (\<not> isUp (keys (snd (new_Key v w)) (fst (new_Key v w)))) \<and>
   isDown (keys (key_run (fst (new_Key v w)) (take n ops) (snd (new_Key v w)))
             (fst (new_Key v w))) =
     (\<not> isUp (keys (key_run (fst (new_Key v w)) (take n ops) (snd (new_Key v w)))
             (fst (new_Key v w))))"
proof -
  have c: "consistent (keys (snd (new_Key v w)) (fst (new_Key v w)))"
    by (simp add: consistent_def new_Key_fields)
  from c consistent_key_run [OF c] show ?thesis
    unfolding consistent_def by blast
qed

section \<open>A key with no code\<close>

lemma disabled_invoke:
  assumes "keys (snd s) k = \<lparr>key_value = None, isDown = False, isUp = True\<rparr>"
  shows "keys (snd (invoke cb s)) k = \<lparr>key_value = None, isDown = False, isUp = True\<rparr>"
  using assms
  by (cases cb; cases s) (auto simp: downHandler_fields upHandler_fields)

lemma disabled_fold_invoke:
  assumes "keys (snd s) k = \<lparr>key_value = None, isDown = False, isUp = True\<rparr>"
  shows "keys (snd (fold invoke cbs s)) k = \<lparr>key_value = None, isDown = False, isUp = True\<rparr>"
  using assms by (induction cbs arbitrary: s) (simp_all add: disabled_invoke)

lemma disabled_Key_unsubscribe:
  assumes "keys w k = \<lparr>key_value = None, isDown = False, isUp = True\<rparr>"
  shows "keys (Key_unsubscribe j w) k = \<lparr>key_value = None, isDown = False, isUp = True\<rparr>"
  using assms by (cases "j = k") (auto simp: Key_unsubscribe_fields)

lemma disabled_key_step:
  assumes "keys w k = \<lparr>key_value = None, isDown = False, isUp = True\<rparr>"
  shows "keys (key_step j op w) k = \<lparr>key_value = None, isDown = False, isUp = True\<rparr>"
proof (cases op)
  case (OnPressEvent ev)
  with assms show ?thesis by (auto simp: downHandler_fields)
next
  case (OnReleaseEvent ev)
  with assms show ?thesis by (auto simp: upHandler_fields)
next
  case Subscribe
  with assms show ?thesis by (simp add: Key_subscribe_fields)
next
  case Unsubscribe
  with assms show ?thesis by (simp add: disabled_Key_unsubscribe)
next
  case (Deliver ty ev)
  with assms show ?thesis by (simp add: dispatchEvent_def disabled_fold_invoke)
qed

lemma disabled_key_run:
  assumes "keys w k = \<lparr>key_value = None, isDown = False, isUp = True\<rparr>"
  shows "keys (key_run j ops w) k = \<lparr>key_value = None, isDown = False, isUp = True\<rparr>"
  using assms unfolding key_run_def
  by (induction ops arbitrary: w) (simp_all add: disabled_key_step)

lemma key_step_fields:
  "keyboards (key_step j op w) = keyboards w"
  "nextRef (key_step j op w) = nextRef w"
  by (cases op; simp add: downHandler_fields upHandler_fields Key_subscribe_fields
        Key_unsubscribe_fields dispatchEvent_fields)+

lemma fold_Key_subscribe_fields:
  "keys (fold Key_subscribe ks w) = keys w"
  "keyboards (fold Key_subscribe ks w) = keyboards w"
  "nextRef (fold Key_subscribe ks w) = nextRef w"
  by (induction ks arbitrary: w; simp add: Key_subscribe_fields)+

lemma fold_Key_unsubscribe_fields:
  "keyboards (fold Key_unsubscribe ks w) = keyboards w"
  "nextRef (fold Key_unsubscribe ks w) = nextRef w"
  by (induction ks arbitrary: w; simp add: Key_unsubscribe_fields)+

lemma PikaKeyboard_subscribe_Some:
  assumes "downRightKey (keyboards w d) = Some c"
  shows "PikaKeyboard_subscribe d w = Inr (fold Key_subscribe (keysOf (keyboards w d)) w)"
  using assms by (simp add: PikaKeyboard_subscribe_def keysOf_def Let_def)

lemma PikaKeyboard_unsubscribe_Some:
  assumes "downRightKey (keyboards w d) = Some c"
  shows "PikaKeyboard_unsubscribe d w = Inr (fold Key_unsubscribe (keysOf (keyboards w d)) w)"
  using assms by (simp add: PikaKeyboard_unsubscribe_def keysOf_def Let_def)

lemma disabled_fold_Key_unsubscribe:
  assumes "keys w k = \<lparr>key_value = None, isDown = False, isUp = True\<rparr>"
  shows "keys (fold Key_unsubscribe ks w) k = \<lparr>key_value = None, isDown = False, isUp = True\<rparr>"
  using assms by (induction ks arbitrary: w) (simp_all add: disabled_Key_unsubscribe)

lemma comboDisabled_iff:
  "comboDisabled d w \<longleftrightarrow>
     (d < nextRef w \<and>
      (\<exists>c. c < nextRef w \<and> downRightKey (keyboards w d) = Some c \<and>
           keys w c = \<lparr>key_value = None, isDown = False, isUp = True\<rparr>))"
  by (auto simp: comboDisabled_def split: option.splits)

lemma comboDisabled_perform:
  assumes "comboDisabled d w" and "perform a w = Inr w'"
  shows "comboDisabled d w'"
proof -
  from assms(1) obtain c where d: "d < nextRef w" and c: "c < nextRef w"
    and f: "downRightKey (keyboards w d) = Some c"
    and k: "keys w c = \<lparr>key_value = None, isDown = False, isUp = True\<rparr>"
    unfolding comboDisabled_iff by blast
  show ?thesis
  proof (cases a)
    case (Construct base l r u dn p cc)
    with assms(2) have w': "w' = snd (new_PikaKeyboard base l r u dn p cc w)" by simp
    from d c f k show ?thesis
      unfolding comboDisabled_iff w' by (auto simp: new_PikaKeyboard_fields)
  next
    case (GetInput e)
    with assms(2) have w': "w' = getInput e w" by simp
    from d c f k show ?thesis
      unfolding comboDisabled_iff w' by (auto simp: getInput_fields getInput_refs)
  next
    case (KeyboardSubscribe e)
    with assms(2) obtain c' where "downRightKey (keyboards w e) = Some c'"
      by (auto simp: PikaKeyboard_subscribe_def Let_def split: option.splits)
    from PikaKeyboard_subscribe_Some [OF this] assms(2) KeyboardSubscribe
    have w': "w' = fold Key_subscribe (keysOf (keyboards w e)) w" by simp
    from d c f k show ?thesis
      unfolding comboDisabled_iff w' by (auto simp: fold_Key_subscribe_fields)
  next
    case (KeyboardUnsubscribe e)
    with assms(2) obtain c' where "downRightKey (keyboards w e) = Some c'"
      by (auto simp: PikaKeyboard_unsubscribe_def Let_def split: option.splits)
    from PikaKeyboard_unsubscribe_Some [OF this] assms(2) KeyboardUnsubscribe
    have w': "w' = fold Key_unsubscribe (keysOf (keyboards w e)) w" by simp
    from d c f k show ?thesis
      unfolding comboDisabled_iff w'
      by (auto simp: fold_Key_unsubscribe_fields disabled_fold_Key_unsubscribe)
  next
    case (KeyOp j op)
    with assms(2) have w': "w' = key_step j op w" by simp
    from d c f k show ?thesis
      unfolding comboDisabled_iff w' by (auto simp: key_step_fields disabled_key_step)
  qed
qed

lemma comboDisabled_run:
  assumes "comboDisabled d w" and "run as w = Inr w'"
  shows "comboDisabled d w'"
  using assms
proof (induction as arbitrary: w)
  case Nil
  then show ?case by simp
next
  case (Cons a as)
  from Cons.prems(2) obtain w1 where p: "perform a w = Inr w1" and r: "run as w1 = Inr w'"
    by (auto split: sum.splits)
  from Cons.IH [OF comboDisabled_perform [OF Cons.prems(1) p] r] show ?case .
qed

lemma comboDisabled_new:
  "comboDisabled (fst (new_PikaKeyboard base l r u dn p None w))
     (snd (new_PikaKeyboard base l r u dn p None w))"
  unfolding comboDisabled_iff by (simp add: new_PikaKeyboard_fields)

text \<open>
  Claim C7. The handlers of a key whose code is \<open>null\<close> leave the key and the event as
  they are, for every event. A key built by \<open>new Key(null)\<close> is up after every sequence
  of handler calls, \<open>subscribe()\<close>, \<open>unsubscribe()\<close> and delivered events. And in every
  world a run reaches from \<open>new PikaKeyboard\<close> with no sixth code, the field
  \<open>downRightKey\<close> holds a key that is up with no code, and \<open>subscribe()\<close> and
  \<open>unsubscribe()\<close> of the keyboard return without a \<open>TypeError\<close>.
\<close>

theorem disabled_key_stays_up:
  "(key_value (keys w k) = None \<longrightarrow>
      downHandler k ev w = (ev, w) \<and> upHandler k ev w = (ev, w)) \<and>
   keys (key_run (fst (new_Key None w1)) ops (snd (new_Key None w1))) (fst (new_Key None w1)) =
     \<lparr>key_value = None, isDown = False, isUp = True\<rparr> \<and>
   (\<forall>w'. run acts (snd (new_PikaKeyboard base l r u dn p None w2)) = Inr w' \<longrightarrow>
      (\<exists>c. downRightKey (keyboards w' (fst (new_PikaKeyboard base l r u dn p None w2))) = Some c \<and>
           keys w' c = \<lparr>key_value = None, isDown = False, isUp = True\<rparr>) \<and>
      (\<exists>w''. PikaKeyboard_subscribe (fst (new_PikaKeyboard base l r u dn p None w2)) w' = Inr w'') \<and>
      (\<exists>w''. PikaKeyboard_unsubscribe (fst (new_PikaKeyboard base l r u dn p None w2)) w' = Inr w''))"
proof (intro conjI allI impI)
  assume "key_value (keys w k) = None"
  then show "downHandler k ev w = (ev, w)" "upHandler k ev w = (ev, w)"
    by (simp_all add: downHandler_def upHandler_def)
next
  have "keys (snd (new_Key None w1)) (fst (new_Key None w1)) =
      \<lparr>key_value = None, isDown = False, isUp = True\<rparr>"
    by (simp add: new_Key_fields)
  then show "keys (key_run (fst (new_Key None w1)) ops (snd (new_Key None w1)))
      (fst (new_Key None w1)) = \<lparr>key_value = None, isDown = False, isUp = True\<rparr>"
    by (rule disabled_key_run)
next
  fix w'
  let ?d = "fst (new_PikaKeyboard base l r u dn p None w2)"
  assume "run acts (snd (new_PikaKeyboard base l r u dn p None w2)) = Inr w'"
  from comboDisabled_run [OF comboDisabled_new this]
  obtain c where c: "downRightKey (keyboards w' ?d) = Some c"
    and k: "keys w' c = \<lparr>key_value = None, isDown = False, isUp = True\<rparr>"
    unfolding comboDisabled_iff by blast
  from c k show "\<exists>c. downRightKey (keyboards w' ?d) = Some c \<and>
      keys w' c = \<lparr>key_value = None, isDown = False, isUp = True\<rparr>" by blast
  from PikaKeyboard_subscribe_Some [OF c]
  show "\<exists>w''. PikaKeyboard_subscribe ?d w' = Inr w''" by blast
  from PikaKeyboard_unsubscribe_Some [OF c]
  show "\<exists>w''. PikaKeyboard_unsubscribe ?d w' = Inr w''" by blast
qed

theorem disabled_key_stays_up_witness:
  "key_value (keys (snd (device None)) 6) = None \<and>
   downHandler 6 \<lparr>code = ''Space'', defaultPrevented = False\<rparr> (snd (device None)) =
     (\<lparr>code = ''Space'', defaultPrevented = False\<rparr>, snd (device None)) \<and>
   upHandler 6 \<lparr>code = ''Space'', defaultPrevented = False\<rparr> (snd (device None)) =
     (\<lparr>code = ''Space'', defaultPrevented = False\<rparr>, snd (device None)) \<and>
   run [GetInput 0] (snd (device None)) = Inr (getInput 0 (snd (device None))) \<and>
   downRightKey (keyboards (getInput 0 (snd (device None))) (fst (device None))) = Some 6 \<and>
   keys (getInput 0 (snd (device None))) 6 =
     \<lparr>key_value = None, isDown = False, isUp = True\<rparr> \<and>
   (\<exists>w''. PikaKeyboard_subscribe (fst (device None)) (getInput 0 (snd (device None))) = Inr w'') \<and>
   (\<exists>w''. PikaKeyboard_unsubscribe (fst (device None)) (getInput 0 (snd (device None))) = Inr w'')"
proof -
  have v: "key_value (keys (snd (device None)) 6) = None"
    by (simp add: run_simps)
  have r: "run [GetInput 0] (snd (device None)) = Inr (getInput 0 (snd (device None)))"
    by simp
  have f: "downRightKey (keyboards (getInput 0 (snd (device None))) (fst (device None))) = Some 6"
    by (simp add: run_simps)
  note t = disabled_key_stays_up [where w = "snd (device None)" and k = 6
      and ev = "\<lparr>code = ''Space'', defaultPrevented = False\<rparr>" and ?w2.0 = emptyWorld
      and acts = "[GetInput 0]"
      and base = "\<lparr>xDirection = 0, yDirection = 0, powerHit = 0\<rparr>"
      and l = "Some ''A''" and r = "Some ''D''" and u = "Some ''W''" and dn = "Some ''S''"
      and p = "Some ''Space''", folded device_def]
  from t v r f show ?thesis by auto
qed

section \<open>Every world of a run has a well-formed listener list\<close>

text \<open>
  The empty world satisfies \<open>window_ok\<close> and every action keeps it, so the condition
  \<open>window_ok w\<close> of the theorems below holds of every world a program reaches.
\<close>

lemma window_ok_emptyWorld: "window_ok emptyWorld"
  by (simp add: window_ok_def listeners_ok_def emptyWorld_def)

lemma window_ok_new_Key: "window_ok w \<Longrightarrow> window_ok (snd (new_Key v w))"
  by (simp add: window_ok_def new_Key_fields listeners_ok_subscribe)

lemma window_ok_new_PikaKeyboard:
  "window_ok w \<Longrightarrow> window_ok (snd (new_PikaKeyboard base l r u d p c w))"
  by (simp add: window_ok_def new_PikaKeyboard_fields listeners_ok_subscribe)

lemma window_ok_fold_Key_subscribe:
  "window_ok w \<Longrightarrow> window_ok (fold Key_subscribe ks w)"
  by (induction ks arbitrary: w) (simp_all add: window_ok_Key_subscribe)

lemma window_ok_fold_Key_unsubscribe:
  "window_ok w \<Longrightarrow> window_ok (fold Key_unsubscribe ks w)"
  by (induction ks arbitrary: w) (simp_all add: window_ok_Key_unsubscribe)

lemma window_ok_key_step: "window_ok w \<Longrightarrow> window_ok (key_step k op w)"
  by (cases op)
     (simp_all add: window_ok_Key_subscribe window_ok_Key_unsubscribe
        window_ok_same [of "snd (downHandler k ev w)" w for ev]
        window_ok_same [of "snd (upHandler k ev w)" w for ev]
        window_ok_same [of "snd (dispatchEvent ty ev w)" w for ty ev]
        downHandler_fields upHandler_fields dispatchEvent_fields)

lemma window_ok_perform:
  assumes "window_ok w" and "perform a w = Inr w'"
  shows "window_ok w'"
proof (cases a)
  case (Construct base l r u dn p c)
  with assms show ?thesis by (auto simp: window_ok_new_PikaKeyboard)
next
  case (GetInput d)
  with assms show ?thesis by (auto simp: window_ok_def getInput_fields)
next
  case (KeyboardSubscribe d)
  with assms(2) obtain c where "downRightKey (keyboards w d) = Some c"
    by (auto simp: PikaKeyboard_subscribe_def Let_def split: option.splits)
  from PikaKeyboard_subscribe_Some [OF this] assms KeyboardSubscribe show ?thesis
    by (auto simp: window_ok_fold_Key_subscribe)
next
  case (KeyboardUnsubscribe d)
  with assms(2) obtain c where "downRightKey (keyboards w d) = Some c"
    by (auto simp: PikaKeyboard_unsubscribe_def Let_def split: option.splits)
  from PikaKeyboard_unsubscribe_Some [OF this] assms KeyboardUnsubscribe show ?thesis
    by (auto simp: window_ok_fold_Key_unsubscribe)
next
  case (KeyOp k op)
  with assms show ?thesis by (auto simp: window_ok_key_step)
qed

lemma window_ok_run:
  assumes "window_ok w" and "run as w = Inr w'"
  shows "window_ok w'"
  using assms
proof (induction as arbitrary: w)
  case Nil
  then show ?case by simp
next
  case (Cons a as)
  from Cons.prems(2) obtain w1 where p: "perform a w = Inr w1" and r: "run as w1 = Inr w'"
    by (auto split: sum.splits)
  from Cons.IH [OF window_ok_perform [OF Cons.prems(1) p] r] show ?case .
qed

lemma window_ok_device: "window_ok (snd (device c))"
  unfolding device_def by (rule window_ok_new_PikaKeyboard [OF window_ok_emptyWorld])

section \<open>Subscribing\<close>

text \<open>
  Claim C6. After \<open>subscribe()\<close> of a key, in a world whose listener list is well
  formed, the \<open>keyup\<close> callback of the key stands in the list before its \<open>keydown\<close>
  callback, and the list is well formed again. When neither callback was registered,
  the call appends the two, \<open>keyup\<close> first.
\<close>

theorem Key_subscribe_release_first:
  assumes "window_ok w"
  shows "registered_before (keyup, upListener k) (keydown, downListener k)
           (window (Key_subscribe k w)) \<and>
         window_ok (Key_subscribe k w) \<and>
         (unregistered k w \<longrightarrow>
            window (Key_subscribe k w) =
              window w @ [(keyup, upListener k), (keydown, downListener k)])"
proof -
  have ok: "window_ok (Key_subscribe k w)"
    by (rule window_ok_Key_subscribe [OF assms])
  have m: "(keydown, downListener k) \<in> set (window (Key_subscribe k w))"
    by (simp add: Key_subscribe_fields set_appendNew)
  from ok m have "registered_before (keyup, upListener k) (keydown, downListener k)
           (window (Key_subscribe k w))"
    unfolding window_ok_def listeners_ok_iff registered_before_def by blast
  moreover have "window (Key_subscribe k w) =
      window w @ [(keyup, upListener k), (keydown, downListener k)]" if "unregistered k w"
    using that by (simp add: unregistered_def Key_subscribe_fields appendNew_def)
  ultimately show ?thesis using ok by blast
qed

theorem Key_subscribe_release_first_witness:
  "window_ok (Key_unsubscribe 2 (snd (device None))) \<and>
   unregistered 2 (Key_unsubscribe 2 (snd (device None))) \<and>
   registered_before (keyup, upListener 2) (keydown, downListener 2)
     (window (Key_subscribe 2 (Key_unsubscribe 2 (snd (device None))))) \<and>
   window (Key_subscribe 2 (Key_unsubscribe 2 (snd (device None)))) =
     [(keyup, upListener 1), (keydown, downListener 1),
      (keyup, upListener 3), (keydown, downListener 3),
      (keyup, upListener 4), (keydown, downListener 4),
      (keyup, upListener 5), (keydown, downListener 5),
      (keyup, upListener 6), (keydown, downListener 6),
      (keyup, upListener 2), (keydown, downListener 2)]"
proof -
  have ok: "window_ok (Key_unsubscribe 2 (snd (device None)))"
    by (rule window_ok_Key_unsubscribe [OF window_ok_device])
  have w: "window (Key_unsubscribe 2 (snd (device None))) =
     [(keyup, upListener 1), (keydown, downListener 1),
      (keyup, upListener 3), (keydown, downListener 3),
      (keyup, upListener 4), (keydown, downListener 4),
      (keyup, upListener 5), (keydown, downListener 5),
      (keyup, upListener 6), (keydown, downListener 6)]"
    by (simp add: Key_unsubscribe_fields device_fields)
  have u: "unregistered 2 (Key_unsubscribe 2 (snd (device None)))"
    by (simp add: unregistered_def w)
  note t = Key_subscribe_release_first [OF ok, of 2]
  from t have r: "registered_before (keyup, upListener 2) (keydown, downListener 2)
     (window (Key_subscribe 2 (Key_unsubscribe 2 (snd (device None)))))" by blast
  from t u have "window (Key_subscribe 2 (Key_unsubscribe 2 (snd (device None)))) =
      window (Key_unsubscribe 2 (snd (device None))) @
      [(keyup, upListener 2), (keydown, downListener 2)]" by blast
  then have e: "window (Key_subscribe 2 (Key_unsubscribe 2 (snd (device None)))) =
     [(keyup, upListener 1), (keydown, downListener 1),
      (keyup, upListener 3), (keydown, downListener 3),
      (keyup, upListener 4), (keydown, downListener 4),
      (keyup, upListener 5), (keydown, downListener 5),
      (keyup, upListener 6), (keydown, downListener 6),
      (keyup, upListener 2), (keydown, downListener 2)]"
    unfolding w by simp
  from ok u r e show ?thesis by blast
qed

section \<open>Unsubscribing\<close>

lemma window_ok_typed: "window_ok w \<Longrightarrow> list_all well_typed (window w)"
  by (simp add: window_ok_def listeners_ok_def)

lemma window_ok_distinct: "window_ok w \<Longrightarrow> distinct (window w)"
  by (simp add: window_ok_def listeners_ok_def)

lemma keyIsUp_Key_unsubscribe_same: "keyIsUp (keys (Key_unsubscribe k w) k)"
  by (simp add: keyIsUp_def Key_unsubscribe_fields)

lemma keyIsUp_Key_unsubscribe:
  "keyIsUp (keys w k) \<Longrightarrow> keyIsUp (keys (Key_unsubscribe j w) k)"
  by (simp add: keyIsUp_def Key_unsubscribe_fields)

lemma keyIsUp_fold_keep:
  "keyIsUp (keys w k) \<Longrightarrow> keyIsUp (keys (fold Key_unsubscribe ks w) k)"
  by (induction ks arbitrary: w) (simp_all add: keyIsUp_Key_unsubscribe)

lemma keyIsUp_fold_Key_unsubscribe:
  "k \<in> set ks \<Longrightarrow> keyIsUp (keys (fold Key_unsubscribe ks w) k)"
proof (induction ks arbitrary: w)
  case Nil
  then show ?case by simp
next
  case (Cons a ks)
  show ?case
  proof (cases "k = a")
    case True
    then show ?thesis
      by (simp add: keyIsUp_fold_keep keyIsUp_Key_unsubscribe_same)
  next
    case False
    with Cons show ?thesis by simp
  qed
qed

lemma unregistered_Key_unsubscribe_same:
  "distinct (window w) \<Longrightarrow> unregistered k (Key_unsubscribe k w)"
  by (simp add: unregistered_def Key_unsubscribe_fields)

lemma unregistered_Key_unsubscribe:
  "unregistered k w \<Longrightarrow> unregistered k (Key_unsubscribe j w)"
  by (auto simp: unregistered_def Key_unsubscribe_fields dest: notin_set_remove1)

lemma unregistered_fold_keep:
  "unregistered k w \<Longrightarrow> unregistered k (fold Key_unsubscribe ks w)"
  by (induction ks arbitrary: w) (simp_all add: unregistered_Key_unsubscribe)

lemma unregistered_fold_Key_unsubscribe:
  "window_ok w \<Longrightarrow> k \<in> set ks \<Longrightarrow> unregistered k (fold Key_unsubscribe ks w)"
proof (induction ks arbitrary: w)
  case Nil
  then show ?case by simp
next
  case (Cons a ks)
  show ?case
  proof (cases "k = a")
    case True
    from Cons.prems(1) have "unregistered a (Key_unsubscribe a w)"
      by (simp add: unregistered_Key_unsubscribe_same window_ok_distinct)
    with True show ?thesis by (simp add: unregistered_fold_keep)
  next
    case False
    with Cons.prems have "k \<in> set ks" by simp
    from Cons.IH [OF window_ok_Key_unsubscribe [OF Cons.prems(1)] this]
    show ?thesis by simp
  qed
qed

lemma Key_unsubscribe_idle:
  assumes "keyIsUp (keys w k)" and "unregistered k w"
  shows "Key_unsubscribe k w = w"
proof -
  from assms(1) have "(keys w k)\<lparr>isDown := False, isUp := True\<rparr> = keys w k"
    by (simp add: keyIsUp_def)
  then have "(keys w)(k := (keys w k)\<lparr>isDown := False, isUp := True\<rparr>) = keys w"
    by simp
  with assms(2) show ?thesis
    by (simp add: Key_unsubscribe_def removeEventListener_def unregistered_def
          remove1_idem Let_def)
qed

lemma fold_Key_unsubscribe_idle:
  assumes "\<forall>k\<in>set ks. keyIsUp (keys w k) \<and> unregistered k w"
  shows "fold Key_unsubscribe ks w = w"
  using assms by (induction ks) (simp_all add: Key_unsubscribe_idle)

section \<open>Events that reach no callback of a key\<close>

lemma keys_dispatchEvent_unregistered:
  assumes "window_ok w" and "unregistered k w"
  shows "keys (snd (dispatchEvent ty ev w)) k = keys w k"
proof (cases ty)
  case keyup
  with assms(2) show ?thesis
    by (simp add: keys_keyup [OF window_ok_typed [OF assms(1)]] unregistered_def)
next
  case keydown
  with assms(2) show ?thesis
    by (simp add: keys_keydown [OF window_ok_typed [OF assms(1)]] unregistered_def)
qed

lemma keys_dispatchAll_unregistered:
  assumes "window_ok w" and "unregistered k w"
  shows "keys (dispatchAll evs w) k = keys w k"
  using assms
proof (induction evs w rule: dispatchAll.induct)
  case (1 w)
  show ?case by simp
next
  case (2 ty ev evs w)
  let ?w = "snd (dispatchEvent ty ev w)"
  have "window_ok ?w" using "2.prems"(1) by (simp add: window_ok_def dispatchEvent_fields)
  moreover have "unregistered k ?w"
    using "2.prems"(2) by (simp add: unregistered_def dispatchEvent_fields)
  ultimately have "keys (dispatchAll evs ?w) k = keys ?w k" by (rule "2.IH")
  then show ?case
    by (simp add: keys_dispatchEvent_unregistered [OF "2.prems"])
qed

lemma getInput_neutral:
  assumes "\<forall>k\<in>set (keysOf (keyboards w d)). keyIsUp (keys w k)"
  shows "xDirection (keyboards (getInput d w) d) = 0"
    and "yDirection (keyboards (getInput d w) d) = 0"
    and "powerHit (keyboards (getInput d w) d) = 0"
  using assms
  by (auto simp: getInput_keyboard keysOf_def keyIsUp_def split: option.splits)

section \<open>A keyboard that is unsubscribed\<close>

text \<open>
  Claim C3, as amended: the case of a keyboard that never subscribed is left out. In a
  world whose listener list is well formed, for a keyboard whose \<open>downRightKey\<close> holds
  a key (the constructor always stores one), \<open>unsubscribe()\<close> returns without an
  exception and leaves each of the six keys with \<open>isDown = false\<close> and \<open>isUp = true\<close>;
  whatever events are delivered afterwards, the six keys stay as they are, and
  \<open>getInput\<close> (which has no failing branch: it tests \<open>this.downRightKey\<close> before
  reading it) leaves \<open>xDirection = 0\<close>, \<open>yDirection = 0\<close> and \<open>powerHit = 0\<close>.
\<close>

theorem neutral_after_unsubscribe:
  assumes "window_ok w" and "downRightKey (keyboards w d) = Some c"
  shows "\<exists>w1. PikaKeyboard_unsubscribe d w = Inr w1 \<and>
           (\<forall>k\<in>set (keysOf (keyboards w d)). keyIsUp (keys w1 k)) \<and>
           (\<forall>evs.
              (\<forall>k\<in>set (keysOf (keyboards w d)). keys (dispatchAll evs w1) k = keys w1 k) \<and>
              xDirection (keyboards (getInput d (dispatchAll evs w1)) d) = 0 \<and>
              yDirection (keyboards (getInput d (dispatchAll evs w1)) d) = 0 \<and>
              powerHit (keyboards (getInput d (dispatchAll evs w1)) d) = 0)"
proof -
  let ?ks = "keysOf (keyboards w d)"
  let ?w1 = "fold Key_unsubscribe ?ks w"
  have r: "PikaKeyboard_unsubscribe d w = Inr ?w1"
    by (rule PikaKeyboard_unsubscribe_Some [OF assms(2)])
  have ok: "window_ok ?w1"
    by (rule window_ok_fold_Key_unsubscribe [OF assms(1)])
  have up: "\<forall>k\<in>set ?ks. keyIsUp (keys ?w1 k)"
    by (simp add: keyIsUp_fold_Key_unsubscribe)
  have un: "\<forall>k\<in>set ?ks. unregistered k ?w1"
    by (simp add: unregistered_fold_Key_unsubscribe [OF assms(1)])
  have after: "(\<forall>k\<in>set ?ks. keys (dispatchAll evs ?w1) k = keys ?w1 k) \<and>
      xDirection (keyboards (getInput d (dispatchAll evs ?w1)) d) = 0 \<and>
      yDirection (keyboards (getInput d (dispatchAll evs ?w1)) d) = 0 \<and>
      powerHit (keyboards (getInput d (dispatchAll evs ?w1)) d) = 0" for evs
  proof -
    let ?w2 = "dispatchAll evs ?w1"
    have same: "\<forall>k\<in>set ?ks. keys ?w2 k = keys ?w1 k"
      using un by (simp add: keys_dispatchAll_unregistered [OF ok])
    have kb: "keyboards ?w2 = keyboards w"
      by (simp add: dispatchAll_fields fold_Key_unsubscribe_fields)
    from same up have "\<forall>k\<in>set (keysOf (keyboards ?w2 d)). keyIsUp (keys ?w2 k)"
      unfolding kb by simp
    from getInput_neutral [OF this] same show ?thesis by blast
  qed
  from r up after show ?thesis by blast
qed

theorem neutral_after_unsubscribe_witness:
  "window_ok (press ''Space'' (press ''A'' (snd (device None)))) \<and>
   downRightKey (keyboards (press ''Space'' (press ''A'' (snd (device None)))) 0) = Some 6 \<and>
   isDown (keys (press ''Space'' (press ''A'' (snd (device None)))) 1) \<and>
   (\<exists>w1. PikaKeyboard_unsubscribe 0 (press ''Space'' (press ''A'' (snd (device None)))) = Inr w1 \<and>
      keyIsUp (keys w1 1) \<and>
      keys (dispatchAll [(keydown, \<lparr>code = ''A'', defaultPrevented = False\<rparr>)] w1) 1 =
        keys w1 1 \<and>
      xDirection (keyboards (getInput 0
        (dispatchAll [(keydown, \<lparr>code = ''A'', defaultPrevented = False\<rparr>)] w1)) 0) = 0 \<and>
      yDirection (keyboards (getInput 0
        (dispatchAll [(keydown, \<lparr>code = ''A'', defaultPrevented = False\<rparr>)] w1)) 0) = 0 \<and>
      powerHit (keyboards (getInput 0
        (dispatchAll [(keydown, \<lparr>code = ''A'', defaultPrevented = False\<rparr>)] w1)) 0) = 0)"
proof -
  let ?w = "press ''Space'' (press ''A'' (snd (device None)))"
  have ok: "window_ok ?w"
    using window_ok_device [of None] by (simp add: window_ok_def press_fields)
  have c: "downRightKey (keyboards ?w 0) = Some 6"
    by (simp add: run_simps)
  have a: "isDown (keys ?w 1)"
    by (simp add: run_simps)
  have m: "1 \<in> set (keysOf (keyboards ?w 0))"
    by (simp add: keysOf_def run_simps)
  from neutral_after_unsubscribe [OF ok c] obtain w1
    where r: "PikaKeyboard_unsubscribe 0 ?w = Inr w1"
      and up: "\<forall>k\<in>set (keysOf (keyboards ?w 0)). keyIsUp (keys w1 k)"
      and ev: "\<And>evs.
              (\<forall>k\<in>set (keysOf (keyboards ?w 0)). keys (dispatchAll evs w1) k = keys w1 k) \<and>
              xDirection (keyboards (getInput 0 (dispatchAll evs w1)) 0) = 0 \<and>
              yDirection (keyboards (getInput 0 (dispatchAll evs w1)) 0) = 0 \<and>
              powerHit (keyboards (getInput 0 (dispatchAll evs w1)) 0) = 0"
    by blast
  from up m have u1: "keyIsUp (keys w1 1)" by blast
  from ev [of "[(keydown, \<lparr>code = ''A'', defaultPrevented = False\<rparr>)]"] m
  have e1: "keys (dispatchAll [(keydown, \<lparr>code = ''A'', defaultPrevented = False\<rparr>)] w1) 1 =
        keys w1 1" by blast
  from ok c a r u1 e1 ev [of "[(keydown, \<lparr>code = ''A'', defaultPrevented = False\<rparr>)]"]
  show ?thesis by blast
qed

text \<open>
  The claim as it is written also promises the neutral snapshot for a keyboard on which
  \<open>subscribe()\<close> was never called. \<open>new Key\<close> calls \<open>this.subscribe()\<close>: the callbacks of
  a keyboard are registered when the constructor returns, and with no call of
  \<open>subscribe()\<close> a press of \<open>A\<close> makes \<open>getInput\<close> leave \<open>xDirection = -1\<close>.
\<close>

theorem fresh_device_reacts:
  "let d = fst (device None);
       w0 = snd (device None);
       w1 = getInput d (press ''A'' w0)
   in (keyup, upListener (leftKey (keyboards w0 d))) \<in> set (window w0) \<and>
      (keydown, downListener (leftKey (keyboards w0 d))) \<in> set (window w0) \<and>
      isDown (keys (press ''A'' w0) (leftKey (keyboards w0 d))) \<and>
      xDirection (keyboards w1 d) = - 1"
  unfolding Let_def by (simp add: run_simps)

text \<open>
  Claim C9. In a world whose listener list is well formed, for a keyboard whose
  \<open>downRightKey\<close> holds a key (the constructor always stores one), \<open>unsubscribe()\<close>
  returns without an exception, and a second \<open>unsubscribe()\<close> returns without an
  exception too and leaves the world exactly as the first call left it: every key of
  the keyboard up, and neither of its callbacks in the listener list.
\<close>

theorem unsubscribe_idempotent:
  assumes "window_ok w" and "downRightKey (keyboards w d) = Some c"
  shows "\<exists>w1. PikaKeyboard_unsubscribe d w = Inr w1 \<and>
           PikaKeyboard_unsubscribe d w1 = Inr w1 \<and>
           (\<forall>k\<in>set (keysOf (keyboards w d)). keyIsUp (keys w1 k) \<and> unregistered k w1)"
proof -
  let ?ks = "keysOf (keyboards w d)"
  let ?w1 = "fold Key_unsubscribe ?ks w"
  have r: "PikaKeyboard_unsubscribe d w = Inr ?w1"
    by (rule PikaKeyboard_unsubscribe_Some [OF assms(2)])
  have q: "\<forall>k\<in>set ?ks. keyIsUp (keys ?w1 k) \<and> unregistered k ?w1"
    by (simp add: keyIsUp_fold_Key_unsubscribe unregistered_fold_Key_unsubscribe [OF assms(1)])
  have kb: "keyboards ?w1 = keyboards w"
    by (simp add: fold_Key_unsubscribe_fields)
  from assms(2) have "downRightKey (keyboards ?w1 d) = Some c"
    by (simp add: kb)
  from PikaKeyboard_unsubscribe_Some [OF this]
  have "PikaKeyboard_unsubscribe d ?w1 = Inr (fold Key_unsubscribe ?ks ?w1)"
    by (simp add: kb)
  also have "fold Key_unsubscribe ?ks ?w1 = ?w1"
    by (rule fold_Key_unsubscribe_idle [OF q])
  finally have "PikaKeyboard_unsubscribe d ?w1 = Inr ?w1" .
  with r q show ?thesis by blast
qed

theorem unsubscribe_idempotent_witness:
  "window_ok (press ''Space'' (snd (device (Some ''V'')))) \<and>
   downRightKey (keyboards (press ''Space'' (snd (device (Some ''V'')))) 0) = Some 6 \<and>
   isDown (keys (press ''Space'' (snd (device (Some ''V'')))) 5) \<and>
   (\<exists>w1. PikaKeyboard_unsubscribe 0 (press ''Space'' (snd (device (Some ''V'')))) = Inr w1 \<and>
      PikaKeyboard_unsubscribe 0 w1 = Inr w1 \<and>
      keyIsUp (keys w1 5) \<and> unregistered 5 w1)"
proof -
  let ?w = "press ''Space'' (snd (device (Some ''V'')))"
  have ok: "window_ok ?w"
    using window_ok_device [of "Some ''V''"] by (simp add: window_ok_def press_fields)
  have c: "downRightKey (keyboards ?w 0) = Some 6"
    by (simp add: run_simps)
  have a: "isDown (keys ?w 5)"
    by (simp add: run_simps)
  have m: "5 \<in> set (keysOf (keyboards ?w 0))"
    by (simp add: keysOf_def run_simps)
  from unsubscribe_idempotent [OF ok c] m ok c a show ?thesis by blast
qed

section \<open>The latch and the pulse\<close>

lemma getInput_other:
  "e \<noteq> d \<Longrightarrow> keyboards (getInput e w) d = keyboards w d"
  by (simp add: getInput_def Let_def)

lemma latch_perform:
  assumes "d < nextRef w" and "perform a w = Inr w'"
  shows "d < nextRef w' \<and>
         powerHitKeyIsDownPrevious (keyboards w' d) =
           (case a of
              GetInput e \<Rightarrow>
                if e = d then isDown (keys w (powerHitKey (keyboards w d)))
                else powerHitKeyIsDownPrevious (keyboards w d)
            | _ \<Rightarrow> powerHitKeyIsDownPrevious (keyboards w d))"
proof (cases a)
  case (Construct base l r u dn p c)
  with assms show ?thesis by (auto simp: new_PikaKeyboard_fields)
next
  case (GetInput e)
  with assms show ?thesis
    by (auto simp: getInput_fields getInput_keyboard getInput_other)
next
  case (KeyboardSubscribe e)
  with assms(2) obtain c where "downRightKey (keyboards w e) = Some c"
    by (auto simp: PikaKeyboard_subscribe_def Let_def split: option.splits)
  from PikaKeyboard_subscribe_Some [OF this] assms KeyboardSubscribe show ?thesis
    by (auto simp: fold_Key_subscribe_fields)
next
  case (KeyboardUnsubscribe e)
  with assms(2) obtain c where "downRightKey (keyboards w e) = Some c"
    by (auto simp: PikaKeyboard_unsubscribe_def Let_def split: option.splits)
  from PikaKeyboard_unsubscribe_Some [OF this] assms KeyboardUnsubscribe show ?thesis
    by (auto simp: fold_Key_unsubscribe_fields)
next
  case (KeyOp k op)
  with assms show ?thesis by (auto simp: key_step_fields)
qed

lemma latch_run:
  assumes "d < nextRef w" and "run as w = Inr w'"
  shows "powerHitKeyIsDownPrevious (keyboards w' d) =
           lastSample d as w (powerHitKeyIsDownPrevious (keyboards w d))"
  using assms
proof (induction as arbitrary: w)
  case Nil
  then show ?case by simp
next
  case (Cons a as)
  from Cons.prems(2) obtain w1 where p: "perform a w = Inr w1" and r: "run as w1 = Inr w'"
    by (auto split: sum.splits)
  from latch_perform [OF Cons.prems(1) p]
  have n: "d < nextRef w1"
    and l: "powerHitKeyIsDownPrevious (keyboards w1 d) =
           (case a of
              GetInput e \<Rightarrow>
                if e = d then isDown (keys w (powerHitKey (keyboards w d)))
                else powerHitKeyIsDownPrevious (keyboards w d)
            | _ \<Rightarrow> powerHitKeyIsDownPrevious (keyboards w d))"
    by blast+
  from Cons.IH [OF n r] show ?case
    unfolding l by (simp add: p)
qed

lemma pulses_edges:
  "pulses d bs w =
     map (\<lambda>(prev, now). if \<not> prev \<and> now then 1 else 0)
       (zip (powerHitKeyIsDownPrevious (keyboards w d) # samples d bs w) (samples d bs w))"
proof (induction bs arbitrary: w)
  case Nil
  show ?case by simp
next
  case (Cons evs rest)
  let ?w1 = "dispatchAll evs w"
  have l: "powerHitKeyIsDownPrevious (keyboards (getInput d ?w1) d) =
      isDown (keys ?w1 (powerHitKey (keyboards ?w1 d)))"
    by (simp add: getInput_keyboard)
  show ?case
    by (simp add: Let_def Cons.IH l getInput_keyboard dispatchAll_fields)
qed

text \<open>
  Claim C1, as amended. In every world that a run reaches from \<open>new PikaKeyboard\<close>,
  \<open>powerHitKeyIsDownPrevious\<close> is what the last call of \<open>getInput\<close> of that keyboard
  read in \<open>isDown\<close> of the power hit key, and it is false when the run has no such
  call. Each call of a run of frames leaves \<open>powerHit = 1\<close> exactly when the key is down
  at the call and was not down at the call before it (for the first call of the run:
  when the latch is false). So when the key is down at each of \<open>N \<ge> 1\<close> consecutive
  calls, \<open>powerHit\<close> is 0 after every call but the first, and after the first it is 1
  exactly when the key was up at the call of \<open>getInput\<close> before the run, or no call
  came before.
\<close>

theorem pulses_while_held:
  "let d = fst (new_PikaKeyboard base l r u dn p c w0);
       w1 = snd (new_PikaKeyboard base l r u dn p c w0)
   in (run as w1 = Inr w \<longrightarrow>
         powerHitKeyIsDownPrevious (keyboards w d) = lastSample d as w1 False \<and>
         (heldAtEachFrame d (evs # rest) w \<longrightarrow>
            pulses d (evs # rest) w =
              (if lastSample d as w1 False then 0 else 1) # replicate (length rest) 0)) \<and>
      pulses d' bs w' =
        map (\<lambda>(prev, now). if \<not> prev \<and> now then 1 else 0)
          (zip (powerHitKeyIsDownPrevious (keyboards w' d') # samples d' bs w')
               (samples d' bs w'))"
proof -
  let ?d = "fst (new_PikaKeyboard base l r u dn p c w0)"
  let ?w1 = "snd (new_PikaKeyboard base l r u dn p c w0)"
  have n: "?d < nextRef ?w1"
    by (simp add: new_PikaKeyboard_fields)
  have f: "powerHitKeyIsDownPrevious (keyboards ?w1 ?d) = False"
    by (simp add: new_PikaKeyboard_fields)
  have a: "powerHitKeyIsDownPrevious (keyboards w ?d) = lastSample ?d as ?w1 False"
    if "run as ?w1 = Inr w"
    using latch_run [OF n that] unfolding f .
  have b: "pulses ?d (evs # rest) w =
      (if lastSample ?d as ?w1 False then 0 else 1) # replicate (length rest) 0"
    if "run as ?w1 = Inr w" and "heldAtEachFrame ?d (evs # rest) w"
    using pulses_hold [OF that(2)] unfolding a [OF that(1)] .
  from a b pulses_edges [of d' bs w'] show ?thesis
    unfolding Let_def by blast
qed

text \<open>
  An instance: after one frame with all keys up, \<open>Space\<close> held over two frames gives the
  pulses 1, 0; and down, down, up, up, down at five frames gives 1, 0, 0, 0, 1.
\<close>

theorem pulses_while_held_witness:
  "run [GetInput 0] (snd (device None)) = Inr (getInput 0 (snd (device None))) \<and>
   \<not> lastSample (fst (device None)) [GetInput 0] (snd (device None)) False \<and>
   \<not> powerHitKeyIsDownPrevious
        (keyboards (getInput 0 (snd (device None))) (fst (device None))) \<and>
   heldAtEachFrame (fst (device None))
     [[(keydown, \<lparr>code = ''Space'', defaultPrevented = False\<rparr>)], []]
     (getInput 0 (snd (device None))) \<and>
   pulses (fst (device None))
     [[(keydown, \<lparr>code = ''Space'', defaultPrevented = False\<rparr>)], []]
     (getInput 0 (snd (device None))) = [1, 0] \<and>
   samples 0
     [[(keydown, \<lparr>code = ''Space'', defaultPrevented = False\<rparr>)], [],
      [(keyup, \<lparr>code = ''Space'', defaultPrevented = False\<rparr>)], [],
      [(keydown, \<lparr>code = ''Space'', defaultPrevented = False\<rparr>)]]
     (snd (device None)) = [True, True, False, False, True] \<and>
   pulses 0
     [[(keydown, \<lparr>code = ''Space'', defaultPrevented = False\<rparr>)], [],
      [(keyup, \<lparr>code = ''Space'', defaultPrevented = False\<rparr>)], [],
      [(keydown, \<lparr>code = ''Space'', defaultPrevented = False\<rparr>)]]
     (snd (device None)) = [1, 0, 0, 0, 1]"
proof -
  let ?kd = "(keydown, \<lparr>code = ''Space'', defaultPrevented = False\<rparr>)"
  let ?ku = "(keyup, \<lparr>code = ''Space'', defaultPrevented = False\<rparr>)"
  let ?d = "fst (device None)"
  let ?w = "getInput 0 (snd (device None))"
  have r: "run [GetInput 0] (snd (device None)) = Inr ?w"
    by simp
  have s: "\<not> lastSample ?d [GetInput 0] (snd (device None)) False"
    by (simp add: run_simps)
  have h: "heldAtEachFrame ?d [[?kd], []] ?w"
    by (simp add: Let_def run_simps event_simps)
  have m: "samples 0 [[?kd], [], [?ku], [], [?kd]] (snd (device None)) =
      [True, True, False, False, True]"
    by (simp add: Let_def run_simps event_simps)
  have z: "\<not> powerHitKeyIsDownPrevious (keyboards (snd (device None)) 0)"
    by (simp add: run_simps)
  note t = pulses_while_held [where base = "\<lparr>xDirection = 0, yDirection = 0, powerHit = 0\<rparr>"
      and l = "Some ''A''" and r = "Some ''D''" and u = "Some ''W''" and dn = "Some ''S''"
      and p = "Some ''Space''" and c = None and ?w0.0 = emptyWorld
      and as = "[GetInput 0]" and w = ?w and evs = "[?kd]" and rest = "[[]]"
      and d' = 0 and bs = "[[?kd], [], [?ku], [], [?kd]]" and w' = "snd (device None)",
      folded device_def, unfolded Let_def]
  from t r have l: "powerHitKeyIsDownPrevious (keyboards ?w ?d) =
      lastSample ?d [GetInput 0] (snd (device None)) False" by blast
  from t r h have "pulses ?d [[?kd], []] ?w =
      (if lastSample ?d [GetInput 0] (snd (device None)) False then 0 else 1) #
      replicate (length [[]::(evtype \<times> KeyboardEvent) list]) 0" by blast
  with s have p1: "pulses ?d [[?kd], []] ?w = [1, 0]" by simp
  from t have "pulses 0 [[?kd], [], [?ku], [], [?kd]] (snd (device None)) =
      map (\<lambda>(prev, now). if \<not> prev \<and> now then 1 else 0)
        (zip (powerHitKeyIsDownPrevious (keyboards (snd (device None)) 0) #
                samples 0 [[?kd], [], [?ku], [], [?kd]] (snd (device None)))
             (samples 0 [[?kd], [], [?ku], [], [?kd]] (snd (device None))))" by blast
  then have p2: "pulses 0 [[?kd], [], [?ku], [], [?kd]] (snd (device None)) = [1, 0, 0, 0, 1]"
    unfolding m using z by simp
  from l s have q: "\<not> powerHitKeyIsDownPrevious (keyboards ?w ?d)" by simp
  from r s q h p1 m p2 show ?thesis by blast
qed

text \<open>
  The claim as it is written promises the pulse on the first call after every
  transition of the key from up to down. The latch is only written by \<open>getInput\<close>: when
  the key is released and pressed again between two calls, it goes up and down again,
  and the next call leaves \<open>powerHit = 0\<close>.
\<close>

theorem repress_between_frames:
  "let d = fst (device None);
       w1 = getInput d (press ''Space'' (snd (device None)));
       w2 = release ''Space'' w1;
       w3 = press ''Space'' w2;
       w4 = getInput d w3
   in powerHit (keyboards w1 d) = 1 \<and>
      isDown (keys w1 (powerHitKey (keyboards w1 d))) \<and>
      \<not> isDown (keys w2 (powerHitKey (keyboards w2 d))) \<and>
      isUp (keys w2 (powerHitKey (keyboards w2 d))) \<and>
      isDown (keys w3 (powerHitKey (keyboards w3 d))) \<and>
      powerHit (keyboards w4 d) = 0"
  unfolding Let_def by (simp add: run_simps)

end
